theory Spec2Isabelle
  imports Main
begin

section \<open>Errors of the build tool\<close>

text \<open>
  The build tool is synchronous JavaScript: an exception thrown inside a callee and not
  caught travels to the caller. Every function of the model that can throw returns a sum,
  with \<open>Inl\<close> carrying the error: the cycle error of the sort, or a \<^verbatim>\<open>TypeError\<close>.

  Two more values of the type mark the places where the code goes on with an object whose
  behaviour is not in the sources, and the model stops instead of guessing it:
  \<open>NotAPackage\<close> when \<^verbatim>\<open>findPackage\<close> has returned a property of the packager that
  is not one of its packages, to a caller that goes on to call \<^verbatim>\<open>get\<close> and \<^verbatim>\<open>set\<close>
  on it; \<open>PrototypeReplaced\<close> when a file is stored in a dictionary object under the
  key \<^verbatim>\<open>__proto__\<close>, which makes the file the prototype of the dictionary.
\<close>

datatype error = CycleDetected | TypeError | NotAPackage | PrototypeReplaced

section \<open>The dependency graph\<close>

text \<open>
  Modelled from the spec: the module \<^verbatim>\<open>./utils/graph\<close> (constructor \<^verbatim>\<open>Graph\<close> with
  \<^verbatim>\<open>addVertex\<close>, \<^verbatim>\<open>addEdge\<close>, \<^verbatim>\<open>topologicalSort\<close>) is required by the build
  tool but its file is missing. The definitions follow section 4.1 of the specification:
  \<^verbatim>\<open>addVertex\<close> registers a vertex idempotently; \<^verbatim>\<open>addEdge\<close> registers a directed
  edge and both endpoints; \<^verbatim>\<open>topologicalSort\<close> returns every vertex once with the
  source of every edge before its target, breaks ties by insertion order of the vertices,
  and fails with a cycle error when no such order exists.
\<close>

record 'v graph =
  vertices :: "'v list"
  edges :: "('v \<times> 'v) list"

definition empty_graph :: "'v graph" where
  "empty_graph = \<lparr>vertices = [], edges = []\<rparr>"

definition addVertex :: "'v \<Rightarrow> 'v graph \<Rightarrow> 'v graph" where
  "addVertex v g = (if v \<in> set (vertices g) then g else g\<lparr>vertices := vertices g @ [v]\<rparr>)"

definition addEdge :: "'v \<Rightarrow> 'v \<Rightarrow> 'v graph \<Rightarrow> 'v graph" where
  "addEdge a b g = (let g' = addVertex b (addVertex a g) in g'\<lparr>edges := edges g' @ [(a, b)]\<rparr>)"

text \<open>
  Modelled from the spec: \<^verbatim>\<open>topologicalSort\<close> of the missing module
  \<^verbatim>\<open>./utils/graph\<close>. A vertex is ready when no edge leads to it from a vertex that is
  still waiting. The sort takes the first ready vertex in insertion order (the stable
  tie-breaking of section 4.1), until none waits (success) or none is ready (a cycle,
  also that of a vertex with an edge to itself).
\<close>

definition ready :: "('v \<times> 'v) list \<Rightarrow> 'v list \<Rightarrow> 'v \<Rightarrow> bool" where
  "ready es waiting v = (\<forall>e \<in> set es. snd e = v \<longrightarrow> fst e \<notin> set waiting)"

function sort_loop :: "('v \<times> 'v) list \<Rightarrow> 'v list \<Rightarrow> 'v list \<Rightarrow> error + 'v list" where
  "sort_loop es waiting out =
     (if waiting = [] then Inr out
      else (case find (ready es waiting) waiting of
              None \<Rightarrow> Inl CycleDetected
            | Some v \<Rightarrow> sort_loop es (removeAll v waiting) (out @ [v])))"
  by pat_completeness auto
termination
proof (relation "measure (\<lambda>(es, waiting, out). length waiting)")
  show "wf (measure (\<lambda>(es, waiting, out). length waiting))" by simp
next
  fix es :: "('v \<times> 'v) list" and waiting out :: "'v list" and v
  assume "find (ready es waiting) waiting = Some v"
  then have "v \<in> set waiting"
    by (auto simp: find_Some_iff)
  then have "length (removeAll v waiting) < length waiting"
    by (simp add: length_removeAll_less)
  then show "((es, removeAll v waiting, out @ [v]), (es, waiting, out))
      \<in> measure (\<lambda>(es, waiting, out). length waiting)"
    by simp
qed

declare sort_loop.simps [simp del]

definition topologicalSort :: "'v graph \<Rightarrow> error + 'v list" where
  "topologicalSort g = sort_loop (edges g) (vertices g) []"

text \<open>
  A graph is built by a sequence of calls to its two mutators, starting from
  \<^verbatim>\<open>new Graph()\<close>.
\<close>

datatype 'v graph_call = AddVertex 'v | AddEdge 'v 'v

fun apply_call :: "'v graph \<Rightarrow> 'v graph_call \<Rightarrow> 'v graph" where
  "apply_call g (AddVertex v) = addVertex v g"
| "apply_call g (AddEdge a b) = addEdge a b g"

definition graph_of_calls :: "'v graph_call list \<Rightarrow> 'v graph" where
  "graph_of_calls calls = foldl apply_call empty_graph calls"

text \<open>A graph contains a cycle when some vertex reaches itself along one or more edges.\<close>

definition has_cycle :: "'v graph \<Rightarrow> bool" where
  "has_cycle g = (\<exists>v. (v, v) \<in> (set (edges g))\<^sup>+)"

text \<open>Both endpoints of every edge are vertices: what \<^verbatim>\<open>addEdge\<close> maintains.\<close>

definition registered :: "'v graph \<Rightarrow> bool" where
  "registered g = (\<forall>e \<in> set (edges g). fst e \<in> set (vertices g) \<and> snd e \<in> set (vertices g))"

text \<open>
  In a list, \<open>a\<close> comes before \<open>b\<close> when \<open>b\<close> occurs after the first occurrence of
  \<open>a\<close>.
\<close>

fun before :: "'v \<Rightarrow> 'v \<Rightarrow> 'v list \<Rightarrow> bool" where
  "before a b [] = False"
| "before a b (x # xs) = (if x = a then b \<in> set xs else before a b xs)"

text \<open>
  The functions of the build tool that order files are also defined for an arbitrary sort
  in place of \<^verbatim>\<open>topologicalSort\<close>. What they need of it is stated for any function on
  graphs: that it returns every vertex of the graph it is given; and, for one graph, that
  it returns an order of the vertices of that graph, each once, with the source of every
  edge between two different vertices before its target.
\<close>

definition returns_every_vertex :: "('v graph \<Rightarrow> error + 'v list) \<Rightarrow> bool" where
  "returns_every_vertex srt = (\<forall>g vs. srt g = Inr vs \<longrightarrow> set (vertices g) \<subseteq> set vs)"


text \<open>
  One such sort: it takes no account of an edge from a vertex to itself, and otherwise is
  the sort above.
\<close>

definition sort_ignoring_loops :: "'v graph \<Rightarrow> error + 'v list" where
  "sort_ignoring_loops g =
     topologicalSort (g\<lparr>edges := filter (\<lambda>e. fst e \<noteq> snd e) (edges g)\<rparr>)"

section \<open>Strings and paths\<close>

text \<open>
  The string operations of JavaScript that the build tool uses, on strings of 8-bit
  characters: \<^verbatim>\<open>s.slice(n)\<close>, \<^verbatim>\<open>s.slice(0, -n)\<close>, \<^verbatim>\<open>s.split(c)\<close> for a one-character
  separator, and \<^verbatim>\<open>parts.join(sep)\<close>.
\<close>

definition slice_from :: "nat \<Rightarrow> string \<Rightarrow> string" where
  "slice_from n s = drop n s"

definition slice_drop_last :: "nat \<Rightarrow> string \<Rightarrow> string" where
  "slice_drop_last n s = take (length s - n) s"

fun split_on :: "char \<Rightarrow> string \<Rightarrow> string list" where
  "split_on c [] = [[]]"
| "split_on c (x # xs) =
     (if x = c then [] # split_on c xs
      else (case split_on c xs of
              [] \<Rightarrow> [[x]]
            | w # ws \<Rightarrow> (x # w) # ws))"

fun join_with :: "string \<Rightarrow> string list \<Rightarrow> string" where
  "join_with sep [] = []"
| "join_with sep [x] = x"
| "join_with sep (x # y # ys) = x @ sep @ join_with sep (y # ys)"

text \<open>
  The functions of Node's \<^verbatim>\<open>path\<close> module (POSIX flavour) that the build tool calls.
  \<^verbatim>\<open>normalizeArray\<close> walks the parts from the right, dropping \<^verbatim>\<open>.\<close>, and dropping each
  \<^verbatim>\<open>..\<close> together with the nearest part to its left; \<^verbatim>\<open>path.normalize\<close> keeps a
  leading and a trailing slash; \<^verbatim>\<open>path.join\<close> joins its non-empty arguments with a
  slash and normalizes; \<^verbatim>\<open>path.extname\<close> is the last component from its last dot on,
  unless that dot starts the component.
\<close>

definition normalizeArray_step :: "string \<Rightarrow> string list \<times> nat \<Rightarrow> string list \<times> nat" where
  "normalizeArray_step part st =
     (case st of (parts, up) \<Rightarrow>
        if part = ''.'' then (parts, up)
        else if part = ''..'' then (parts, Suc up)
        else if 0 < up then (parts, up - 1)
        else (part # parts, up))"

definition normalizeArray :: "string list \<Rightarrow> bool \<Rightarrow> string list" where
  "normalizeArray parts allowAboveRoot =
     (case foldr normalizeArray_step parts ([], 0) of (kept, up) \<Rightarrow>
        if allowAboveRoot then replicate up ''..'' @ kept else kept)"

definition path_normalize :: "string \<Rightarrow> string" where
  "path_normalize p =
     (let isAbsolute = (take 1 p = ''/'');
          trailingSlash = (p \<noteq> [] \<and> last p = CHR ''/'');
          p1 = join_with ''/''
                 (normalizeArray (filter (\<lambda>part. part \<noteq> []) (split_on CHR ''/'' p))
                    (\<not> isAbsolute));
          p2 = (if p1 = [] \<and> \<not> isAbsolute then ''.'' else p1);
          p3 = (if p2 \<noteq> [] \<and> trailingSlash then p2 @ ''/'' else p2)
      in (if isAbsolute then ''/'' else []) @ p3)"

definition path_join :: "string \<Rightarrow> string \<Rightarrow> string" where
  "path_join a b = path_normalize (join_with ''/'' (filter (\<lambda>p. p \<noteq> []) [a, b]))"

definition last_component :: "string \<Rightarrow> string" where
  "last_component p = last (split_on CHR ''/'' p)"

fun from_last_dot :: "string \<Rightarrow> string option" where
  "from_last_dot [] = None"
| "from_last_dot (x # xs) =
     (case from_last_dot xs of
        Some e \<Rightarrow> Some e
      | None \<Rightarrow> if x = CHR ''.'' then Some (x # xs) else None)"

definition path_extname :: "string \<Rightarrow> string" where
  "path_extname p =
     (let b = last_component p in
      if b = ''..'' then []
      else (case from_last_dot b of
              None \<Rightarrow> []
            | Some e \<Rightarrow> if e = b then [] else e))"

text \<open>\<^verbatim>\<open>path.basename\<close>: the last non-empty component of a path.\<close>

definition path_basename :: "string \<Rightarrow> string" where
  "path_basename p =
     (case rev (filter (\<lambda>part. part \<noteq> []) (split_on CHR ''/'' p)) of
        [] \<Rightarrow> []
      | b # parts \<Rightarrow> b)"

section \<open>Files and their declared dependencies\<close>

text \<open>
  Every node that is created from the file system carries \<^verbatim>\<open>sourceTree\<close>; a package and
  its files also carry \<^verbatim>\<open>parentSourceTree\<close>. A file adds its \<^verbatim>\<open>sourcePath\<close> and the
  text on disk; for a CoffeeScript file \<open>fileText\<close> stands for the output of the
  CoffeeScript compiler, which is what \<^verbatim>\<open>contents\<close> returns. The same record stands for
  a \<^verbatim>\<open>BT.PackageFile\<close> and for a plain \<^verbatim>\<open>BT.File\<close> of a target, which has no
  \<^verbatim>\<open>parentSourceTree\<close>: the functions of \<^verbatim>\<open>BT.File\<close> below do not read that field.
\<close>

record tree_node =
  sourceTree :: string
  parentSourceTree :: string

record pfile = tree_node +
  sourcePath :: string
  fileText :: string

definition isJavaScript :: "pfile \<Rightarrow> bool" where
  "isJavaScript f = (path_extname (sourcePath f) = ''.js'')"

definition isCoffeeScript :: "pfile \<Rightarrow> bool" where
  "isCoffeeScript f = (path_extname (sourcePath f) = ''.coffee'')"

text \<open>\<^verbatim>\<open>contents\<close> is \<^verbatim>\<open>null\<close> for a file that is neither JavaScript nor CoffeeScript.\<close>

definition contents :: "pfile \<Rightarrow> string option" where
  "contents f = (if isJavaScript f \<or> isCoffeeScript f then Some (fileText f) else None)"


definition relativePath :: "pfile \<Rightarrow> string" where
  "relativePath f =
     slice_from (length (path_normalize (parentSourceTree f)) + 1) (sourcePath f)"

definition requirePath :: "'a tree_node_scheme \<Rightarrow> string" where
  "requirePath n = slice_from (length (parentSourceTree n) + 1) (sourceTree n)"

text \<open>
  The regular expression \<^verbatim>\<open>sc_require\((['"])(.*)\1\)\<close>, run by \<^verbatim>\<open>exec\<close> on one
  statement. \<open>capture q\<close> is the greedy \<^verbatim>\<open>(.*)\<close> followed by the quote \<open>q\<close> that opened
  the argument and a closing parenthesis: it first tries to take one more character (any
  but a line terminator) and falls back to closing here. \<open>match_here\<close> is an attempt at
  one position, \<open>re_exec\<close> the leftmost successful attempt; the result is the second
  group.
\<close>

definition is_dot :: "char \<Rightarrow> bool" where
  "is_dot c = (c \<noteq> CHR 0x0A \<and> c \<noteq> CHR 0x0D)"

fun capture :: "char \<Rightarrow> string \<Rightarrow> string option" where
  "capture q [] = None"
| "capture q (x # xs) =
     (case (if is_dot x then capture q xs else None) of
        Some c \<Rightarrow> Some (x # c)
      | None \<Rightarrow> if x = q \<and> take 1 xs = '')'' then Some [] else None)"

definition match_here :: "string \<Rightarrow> string option" where
  "match_here s =
     (if take 11 s = ''sc_require(''
      then (case drop 11 s of
              [] \<Rightarrow> None
            | q # rest \<Rightarrow> if q = CHR 0x27 \<or> q = CHR 0x22 then capture q rest else None)
      else None)"

fun re_exec :: "string \<Rightarrow> string option" where
  "re_exec [] = match_here []"
| "re_exec (x # xs) =
     (case match_here (x # xs) of
        Some c \<Rightarrow> Some c
      | None \<Rightarrow> re_exec xs)"

text \<open>
  \<^verbatim>\<open>BT.File.scRequireDependencies\<close>: the two nested \<^verbatim>\<open>forEach\<close> loops push onto
  \<^verbatim>\<open>ary\<close>. Calling \<^verbatim>\<open>split\<close> on \<^verbatim>\<open>null\<close> contents throws.
\<close>

definition scan_statement :: "string list \<Rightarrow> string \<Rightarrow> string list" where
  "scan_statement ary statement =
     (case re_exec statement of Some result \<Rightarrow> ary @ [result] | None \<Rightarrow> ary)"

definition scan_line :: "string list \<Rightarrow> string \<Rightarrow> string list" where
  "scan_line ary line = foldl scan_statement ary (split_on CHR '';'' line)"

definition File_scRequireDependencies :: "pfile \<Rightarrow> error + string list" where
  "File_scRequireDependencies f =
     (case contents f of
        None \<Rightarrow> Inl TypeError
      | Some c \<Rightarrow> Inr (foldl scan_line [] (split_on CHR 0x0A c)))"

text \<open>\<^verbatim>\<open>BT.PackageFile.scRequireDependencies\<close> re-roots what the base method returns.\<close>

definition scRequireDependencies :: "pfile \<Rightarrow> error + string list" where
  "scRequireDependencies f =
     (case File_scRequireDependencies f of
        Inl e \<Rightarrow> Inl e
      | Inr ary \<Rightarrow>
          Inr (foldl (\<lambda>ret required. ret @ [path_join (requirePath f) required]) [] ary))"

section \<open>Ordering the files of a package\<close>

text \<open>
  \<^verbatim>\<open>map\<close> in \<^verbatim>\<open>orderFiles\<close> is a plain object used as a dictionary. Its own entries
  are the association list below, where a later entry for a key replaces an earlier one.
  Reading a key that has no entry of its own but names a property that every object
  inherits from \<^verbatim>\<open>Object.prototype\<close> yields that inherited value, which is truthy and
  is not a file. What \<^verbatim>\<open>orderFiles\<close> pushes onto its result is therefore a file or
  such an inherited value.
\<close>

definition object_prototype :: "string list" where
  "object_prototype =
     [''constructor'', ''toString'', ''toLocaleString'', ''valueOf'', ''hasOwnProperty'',
      ''isPrototypeOf'', ''propertyIsEnumerable'', ''__defineGetter__'', ''__defineSetter__'',
      ''__lookupGetter__'', ''__lookupSetter__'', ''__proto__'']"

datatype entry = File pfile | Inherited string

definition map_get :: "(string \<times> 'a) list \<Rightarrow> string \<Rightarrow> 'a option" where
  "map_get m k = map_of (rev m) k"

definition object_get :: "(string \<times> pfile) list \<Rightarrow> string \<Rightarrow> entry option" where
  "object_get m k =
     (case map_get m k of
        Some file \<Rightarrow> Some (File file)
      | None \<Rightarrow> if k \<in> set object_prototype then Some (Inherited k) else None)"

text \<open>
  \<^verbatim>\<open>BT.Package.orderFiles\<close>. The first loop fills \<^verbatim>\<open>map\<close> and the graph. A throwing
  \<^verbatim>\<open>scRequireDependencies\<close> ends it with that exception. An assignment to the key
  \<^verbatim>\<open>__proto__\<close> creates no entry but replaces the prototype of \<^verbatim>\<open>map\<close>, so that
  \<^verbatim>\<open>map\<close> then inherits the properties of a file: the loop ends there with
  \<open>PrototypeReplaced\<close>, and what the code does from there on is not described.
\<close>

record fstate =
  fgraph :: "string graph"
  fmap :: "(string \<times> pfile) list"

definition dependencyPath :: "pfile \<Rightarrow> string" where
  "dependencyPath f =
     (if isJavaScript f then slice_drop_last 3 (relativePath f)
      else if isCoffeeScript f then slice_drop_last 7 (relativePath f)
      else ''undefined'')"

definition add_file :: "string \<Rightarrow> fstate \<Rightarrow> pfile \<Rightarrow> error + fstate" where
  "add_file corePath st file =
     (case scRequireDependencies file of
        Inl e \<Rightarrow> Inl e
      | Inr deps \<Rightarrow>
          (let dp = dependencyPath file in
           if dp = ''__proto__'' then Inl PrototypeReplaced
           else
             (let g1 = addVertex dp (fgraph st);
                  g2 = foldl (\<lambda>g name. addEdge name dp g) g1 deps;
                  g3 = addEdge corePath dp g2
              in Inr \<lparr>fgraph = g3, fmap = fmap st @ [(dp, file)]\<rparr>)))"

fun add_files :: "string \<Rightarrow> fstate \<Rightarrow> pfile list \<Rightarrow> error + fstate" where
  "add_files corePath st [] = Inr st"
| "add_files corePath st (file # files) =
     (case add_file corePath st file of
        Inl e \<Rightarrow> Inl e
      | Inr st' \<Rightarrow> add_files corePath st' files)"

text \<open>
  The second loop maps the sorted vertices back through \<^verbatim>\<open>map\<close> and writes the
  diagnostics. The sort comes from the missing module \<^verbatim>\<open>./utils/graph\<close>:
  \<open>orderFiles_with\<close> takes it as a parameter, and \<open>orderFiles\<close> is \<^verbatim>\<open>orderFiles\<close> with
  \<^verbatim>\<open>topologicalSort\<close> as defined above. A throwing sort ends \<^verbatim>\<open>orderFiles\<close> with its
  exception.
\<close>

definition diagnostic :: "'a tree_node_scheme \<Rightarrow> string \<Rightarrow> string" where
  "diagnostic p vertex = ''could not find '' @ sourceTree p @ '' package dependency: '' @ vertex"

definition emit_vertex ::
  "'a tree_node_scheme \<Rightarrow> string \<Rightarrow> (string \<times> pfile) list \<Rightarrow>
   entry list \<times> string list \<Rightarrow> string \<Rightarrow> entry list \<times> string list" where
  "emit_vertex p corePath m acc vertex =
     (case acc of (ret, log) \<Rightarrow>
        (case object_get m vertex of
           Some dep \<Rightarrow> (ret @ [dep], log)
         | None \<Rightarrow> if vertex = corePath then (ret, log)
                   else (ret, log @ [diagnostic p vertex])))"

definition orderFiles_with ::
  "(string graph \<Rightarrow> error + string list) \<Rightarrow> 'a tree_node_scheme \<Rightarrow> pfile list \<Rightarrow>
   error + (entry list \<times> string list)" where
  "orderFiles_with srt p files =
     (let corePath = path_join (requirePath p) ''core'' in
      case add_files corePath \<lparr>fgraph = empty_graph, fmap = []\<rparr> files of
        Inl e \<Rightarrow> Inl e
      | Inr st \<Rightarrow>
          (case srt (fgraph st) of
             Inl e \<Rightarrow> Inl e
           | Inr sortedVertices \<Rightarrow>
               Inr (foldl (emit_vertex p corePath (fmap st)) ([], []) sortedVertices)))"

definition orderFiles ::
  "'a tree_node_scheme \<Rightarrow> pfile list \<Rightarrow> error + (entry list \<times> string list)" where
  "orderFiles p files = orderFiles_with topologicalSort p files"

subsection \<open>Example packages\<close>

definition pkg_node :: tree_node where
  "pkg_node = \<lparr>sourceTree = ''app/packages/pkg'', parentSourceTree = ''app''\<rparr>"

definition pkg_file :: "string \<Rightarrow> string \<Rightarrow> pfile" where
  "pkg_file name txt =
     \<lparr>sourceTree = ''app/packages/pkg'', parentSourceTree = ''app'',
      sourcePath = ''app/packages/pkg/'' @ name, fileText = txt\<rparr>"

text \<open>The graph that \<^verbatim>\<open>orderFiles\<close> hands to the sort.\<close>

definition files_graph :: "'a tree_node_scheme \<Rightarrow> pfile list \<Rightarrow> error + string graph" where
  "files_graph p files =
     (case add_files (path_join (requirePath p) ''core'')
             \<lparr>fgraph = empty_graph, fmap = []\<rparr> files of
        Inl e \<Rightarrow> Inl e
      | Inr st \<Rightarrow> Inr (fgraph st))"

text \<open>
  A package with \<^verbatim>\<open>core.js\<close>, \<^verbatim>\<open>a.js\<close> requiring \<^verbatim>\<open>core\<close> and \<^verbatim>\<open>b.js\<close>
  requiring \<^verbatim>\<open>a\<close>; a package with a CoffeeScript and a JavaScript file of the same
  name; a package whose two files require each other; a package with \<^verbatim>\<open>core.js\<close> in
  which \<^verbatim>\<open>b.js\<close> also requires a file that does not exist; and a package whose file
  requires \<^verbatim>\<open>../../toString\<close>, which \<^verbatim>\<open>path.join\<close> turns into \<^verbatim>\<open>toString\<close>.
\<close>

definition core_a_b :: "pfile list" where
  "core_a_b = [pkg_file ''core.js'' ''SC.core = {};'',
               pkg_file ''a.js'' ''sc_require('core');'',
               pkg_file ''b.js'' ''sc_require('a');'']"

definition same_stem :: "pfile list" where
  "same_stem = [pkg_file ''a.coffee'' ''sc_require('missing');'',
                pkg_file ''a.js'' ''var a = 1;'']"

definition mutual_files :: "pfile list" where
  "mutual_files = [pkg_file ''x.js'' ''sc_require('y');'',
                   pkg_file ''y.js'' ''sc_require('x');'']"

definition core_missing_dep :: "pfile list" where
  "core_missing_dep = [pkg_file ''core.js'' ''SC.core = {};'',
                       pkg_file ''b.js'' ''sc_require('core'); sc_require(\"missing\");'']"

definition inherited_dep :: "pfile list" where
  "inherited_dep = [pkg_file ''a.js'' ''sc_require('../../toString');'']"

subsection \<open>Vocabulary for the claim about declared dependencies\<close>

text \<open>
  In the words of the specification: the statements of a file are its lines, each split at
  semicolons; the declared identifiers are, in order, the identifier of every statement
  that has one. A statement declares \<open>c\<close> when it contains \<^verbatim>\<open>sc_require(\<close>, a quote, \<open>c\<close>
  (free of line terminators), the same quote and \<^verbatim>\<open>)\<close>. A plain path has no empty,
  \<^verbatim>\<open>.\<close> or \<^verbatim>\<open>..\<close> component, hence no leading or trailing slash.
\<close>

definition statements :: "string \<Rightarrow> string list" where
  "statements c = concat (map (split_on CHR '';'') (split_on CHR 0x0A c))"

definition declared_ids :: "string \<Rightarrow> string list" where
  "declared_ids c = List.map_filter re_exec (statements c)"

definition is_call :: "string \<Rightarrow> string \<Rightarrow> bool" where
  "is_call s c =
     (\<exists>pre q post. s = pre @ ''sc_require('' @ q # c @ q # CHR '')'' # post \<and>
        (q = CHR 0x27 \<or> q = CHR 0x22) \<and> (\<forall>x \<in> set c. is_dot x))"

definition plain_path :: "string \<Rightarrow> bool" where
  "plain_path p = (\<forall>part \<in> set (split_on CHR ''/'' p). part \<noteq> [] \<and> part \<noteq> ''.'' \<and> part \<noteq> ''..'')"

definition two_requires :: pfile where
  "two_requires =
     pkg_file ''a.js''
       ''sc_require('core'); var x = sc_require(\"views/b\")\<newline>// nothing here; done''"

definition no_requires :: pfile where
  "no_requires = pkg_file ''c.js'' ''var c = 1;\<newline>c += 1''"

definition parent_require :: pfile where
  "parent_require = pkg_file ''d.js'' ''sc_require('../shared/util');''"

section \<open>Packages and the packager\<close>

text \<open>
  A package as \<^verbatim>\<open>BT.Packager\<close> sees it: the key under which the packager stores it (the
  generated \<^verbatim>\<open>uuid\<close>, which the traversal also makes its \<^verbatim>\<open>nodeName\<close>), the
  \<^verbatim>\<open>basename\<close> of its directory, the \<^verbatim>\<open>type\<close> and \<^verbatim>\<open>dependencies\<close> mixed in
  from \<^verbatim>\<open>package.json\<close> (\<^verbatim>\<open>dependencies\<close> may be absent), and the chain of ancestors
  reached through \<^verbatim>\<open>parentNode\<close>, each with its \<^verbatim>\<open>isFramework || isApp\<close> flag and
  its \<^verbatim>\<open>nodeName\<close>, and the files that its \<^verbatim>\<open>files\<close> traversal collects.

  The packager holds its packages as properties keyed by uuid; the list of packages is
  that part of its property table in insertion order, which is the order the
  \<^verbatim>\<open>packages\<close> traversal returns.
\<close>

record package = tree_node +
  uuid :: string
  basename :: string
  ptype :: string
  dependencies :: "string list option"
  ancestors :: "(bool \<times> string) list"
  pfiles :: "pfile list"

fun index_where :: "('a \<Rightarrow> bool) \<Rightarrow> 'a list \<Rightarrow> nat option" where
  "index_where P [] = None"
| "index_where P (x # xs) =
     (if P x then Some 0 else map_option Suc (index_where P xs))"

text \<open>
  \<^verbatim>\<open>findPackage\<close> first reads \<^verbatim>\<open>this.get(key)\<close> on the packager object, and only if
  that is falsy looks for the first package whose basename is the key. The packager has
  more properties than its packages: \<open>reserved\<close> lists the names under which
  \<^verbatim>\<open>this.get\<close> returns a truthy value that is not a package. Which names these are
  depends on \<^verbatim>\<open>BT.Object\<close>, which is not among the sources, and on the moment of the
  call, so the list is a parameter. \<open>packager_properties\<close> are names that certainly are
  among them while \<^verbatim>\<open>init\<close> runs: the flags and methods that \<^verbatim>\<open>BT.Packager\<close> and
  \<^verbatim>\<open>BT.BuildNode\<close> declare, the cached array \<^verbatim>\<open>packages\<close>, and the two paths given
  at creation (\<^verbatim>\<open>nodeName\<close> and \<^verbatim>\<open>parentNode\<close> are still \<^verbatim>\<open>null\<close> then, and become
  truthy with the first traversal). A package stored under a key replaces an inherited
  property of that name. \<open>Package j\<close> stands for the reference to the package at
  position \<open>j\<close>.
\<close>

datatype lookup = Package nat | OtherProperty | NotFound

definition packager_properties :: "string list" where
  "packager_properties =
     [''isPackager'', ''canVisit'', ''isBuildNode'', ''accept'', ''findPackage'', ''init'',
      ''uuid'', ''packages'', ''sourceTree'', ''parentSourceTree'']"

definition findPackage :: "string list \<Rightarrow> package list \<Rightarrow> string \<Rightarrow> lookup" where
  "findPackage reserved ps key =
     (case index_where (\<lambda>p. uuid p = key) ps of
        Some i \<Rightarrow> Package i
      | None \<Rightarrow>
          if key \<in> set reserved then OtherProperty
          else (case index_where (\<lambda>p. basename p = key) ps of
                  Some i \<Rightarrow> Package i
                | None \<Rightarrow> NotFound))"

text \<open>
  The state of the first loop of \<^verbatim>\<open>orderedPackages\<close>: the packages (whose types the
  loop mutates), the graph under construction, the console output, and whether the loop
  has come to a dependency for which \<^verbatim>\<open>findPackage\<close> returned another property of
  the packager. There the code calls \<^verbatim>\<open>get\<close> (and \<^verbatim>\<open>set\<close>) on that value: a
  \<^verbatim>\<open>TypeError\<close> for a string, a boolean or a function, and for an array or another
  object whatever its \<^verbatim>\<open>get\<close> answers. None of this promotes a package. The state
  then stays as it is, \<open>halted\<close>: no step of the code after that point is described, and
  \<open>orderedPackages\<close> ends with \<open>NotAPackage\<close> in place of a result. Vertices are
  \<open>Some uuid\<close>, or \<open>None\<close> for the \<^verbatim>\<open>undefined\<close> that an unresolved dependency passes
  to \<^verbatim>\<open>addEdge\<close>.
\<close>

record pstate =
  pkgs :: "package list"
  pgraph :: "string option graph"
  plog :: "string list"
  halted :: bool

definition resolveDependency :: "string list \<Rightarrow> nat \<Rightarrow> pstate \<Rightarrow> string \<Rightarrow> pstate" where
  "resolveDependency reserved i s dependency =
     (if halted s then s
      else
        (let name = uuid (pkgs s ! i) in
         case findPackage reserved (pkgs s) dependency of
           Package j \<Rightarrow>
             (let s' = (if ptype (pkgs s ! i) = ''core'' \<and> ptype (pkgs s ! j) \<noteq> ''core''
                        then s\<lparr>pkgs := (pkgs s)[j := (pkgs s ! j)\<lparr>ptype := ''core''\<rparr>],
                               plog := plog s @
                                 [''core package depends on non-core package, '' @
                                  ''forcing non-core ('' @ basename (pkgs s ! j) @
                                  '') dependency to core'']\<rparr>
                        else s)
              in s'\<lparr>pgraph := addEdge (Some (uuid (pkgs s' ! j))) (Some name) (pgraph s')\<rparr>)
         | OtherProperty \<Rightarrow> s\<lparr>halted := True\<rparr>
         | NotFound \<Rightarrow>
             s\<lparr>plog := plog s @
                  [''things are gonna get ugly, couldn't find dependency '' @ dependency @
                   '' for package '' @ basename (pkgs s ! i) @
                   '' in '' @ path_basename (parentSourceTree (pkgs s ! i))],
               pgraph := addEdge None (Some name) (pgraph s)\<rparr>))"

definition resolvePackage :: "string list \<Rightarrow> pstate \<Rightarrow> nat \<Rightarrow> pstate" where
  "resolvePackage reserved s i =
     (if halted s then s
      else
        (let deps = (case dependencies (pkgs s ! i) of None \<Rightarrow> [] | Some ds \<Rightarrow> ds);
             s1 = s\<lparr>pgraph := addVertex (Some (uuid (pkgs s ! i))) (pgraph s)\<rparr>
         in foldl (resolveDependency reserved i) s1 deps))"

definition resolvePackages :: "string list \<Rightarrow> package list \<Rightarrow> pstate" where
  "resolvePackages reserved ps =
     foldl (resolvePackage reserved)
       \<lparr>pkgs = ps, pgraph = empty_graph, plog = [], halted = False\<rparr> [0..<length ps]"

text \<open>
  \<^verbatim>\<open>orderedPackages\<close>: the loop above, the sort, and the sorted vertices mapped back to
  packages through \<^verbatim>\<open>map\<close> (keyed by \<^verbatim>\<open>nodeName\<close>; a later package with the same key
  replaces an earlier one, and a vertex without an entry is skipped). The mutated packages
  are returned with the result, since the mutation survives a throwing sort.
\<close>

definition lookup_last :: "('a \<Rightarrow> 'k) \<Rightarrow> 'a list \<Rightarrow> 'k \<Rightarrow> 'a option" where
  "lookup_last key xs k = find (\<lambda>x. key x = k) (rev xs)"

definition orderedPackages ::
  "string list \<Rightarrow> package list \<Rightarrow> pstate \<times> (error + package list)" where
  "orderedPackages reserved ps =
     (let s = resolvePackages reserved ps in
      (s, if halted s then Inl NotAPackage
          else (case topologicalSort (pgraph s) of
                  Inl e \<Rightarrow> Inl e
                | Inr sortedVertices \<Rightarrow>
                    Inr (List.map_filter
                           (\<lambda>vertex. case vertex of None \<Rightarrow> None
                                      | Some k \<Rightarrow> lookup_last uuid (pkgs s) k) sortedVertices))))"

subsection \<open>Vocabulary for the promotion claims\<close>

text \<open>
  Package \<open>i\<close> declares package \<open>j\<close> as a dependency when one of the names in its
  \<^verbatim>\<open>dependencies\<close> is resolved to \<open>j\<close> by \<^verbatim>\<open>findPackage\<close>.
\<close>

definition depends_on :: "string list \<Rightarrow> package list \<Rightarrow> nat \<Rightarrow> nat \<Rightarrow> bool" where
  "depends_on reserved ps i j =
     (i < length ps \<and>
      (\<exists>d \<in> set (case dependencies (ps ! i) of None \<Rightarrow> [] | Some ds \<Rightarrow> ds).
         findPackage reserved ps d = Package j))"

text \<open>The state of the loop after the first \<open>n\<close> packages have been iterated.\<close>

definition resolved_upto :: "string list \<Rightarrow> package list \<Rightarrow> nat \<Rightarrow> pstate" where
  "resolved_upto reserved ps n =
     foldl (resolvePackage reserved)
       \<lparr>pkgs = ps, pgraph = empty_graph, plog = [], halted = False\<rparr> [0..<n]"

text \<open>
  What the loop keeps of the packages: their number, keys, basenames and dependencies, and
  every type that is already \<^verbatim>\<open>'core'\<close>.
\<close>

definition same_shape :: "package list \<Rightarrow> package list \<Rightarrow> bool" where
  "same_shape ps qs =
     (length qs = length ps \<and>
      (\<forall>k < length ps.
          uuid (qs ! k) = uuid (ps ! k) \<and> basename (qs ! k) = basename (ps ! k) \<and>
          dependencies (qs ! k) = dependencies (ps ! k) \<and>
          (ptype (ps ! k) = ''core'' \<longrightarrow> ptype (qs ! k) = ''core'')))"

text \<open>
  Two packagers with the same three packages, \<open>q\<close> (core) requiring \<open>p\<close> (lazy)
  requiring \<open>r\<close> (lazy), found on disk in two different orders.
\<close>

definition pkg :: "string \<Rightarrow> string \<Rightarrow> string \<Rightarrow> string list option \<Rightarrow> package" where
  "pkg u b t ds = \<lparr>sourceTree = ''app/packages/'' @ b, parentSourceTree = ''app'',
     uuid = u, basename = b, ptype = t, dependencies = ds,
     ancestors = [(False, ''packages''), (True, ''app'')], pfiles = []\<rparr>"

definition late_chain :: "package list" where
  "late_chain = [pkg ''u1'' ''p'' ''lazy'' (Some [''r'']),
                 pkg ''u2'' ''q'' ''core'' (Some [''p'']),
                 pkg ''u3'' ''r'' ''lazy'' None]"

definition early_chain :: "package list" where
  "early_chain = [pkg ''u1'' ''q'' ''core'' (Some [''p'']),
                  pkg ''u2'' ''p'' ''lazy'' (Some [''r'']),
                  pkg ''u3'' ''r'' ''lazy'' None]"

text \<open>Two packages that declare each other as dependencies.\<close>

definition mutual_packages :: "package list" where
  "mutual_packages = [pkg ''u1'' ''p'' ''core'' (Some [''q'']),
                      pkg ''u2'' ''q'' ''core'' (Some [''p''])]"

text \<open>
  A packager in which the core package \<open>q\<close> requires a lazy package whose directory is
  named \<^verbatim>\<open>packages\<close>.
\<close>

definition name_clash :: "package list" where
  "name_clash = [pkg ''u1'' ''q'' ''core'' (Some [''packages'']),
                 pkg ''u2'' ''packages'' ''lazy'' None]"

section \<open>The manifest\<close>

text \<open>
  \<^verbatim>\<open>findRoot\<close> inside \<^verbatim>\<open>manifest\<close> walks up from the parent of a package to the first
  framework or app, or to the topmost ancestor, and quotes its \<^verbatim>\<open>nodeName\<close>. Reading a
  property of a missing parent throws.
\<close>

fun findRoot :: "(bool \<times> string) list \<Rightarrow> error + string" where
  "findRoot [] = Inl TypeError"
| "findRoot ((isTarget, name) # rest) =
     (if \<not> isTarget \<and> rest \<noteq> [] then findRoot rest
      else Inr ([CHR 0x27] @ name @ [CHR 0x27]))"

text \<open>
  \<^verbatim>\<open>dependenciesFor\<close> inside \<^verbatim>\<open>manifest\<close>: one line for every declared dependency
  for which \<^verbatim>\<open>findPackage\<close> returns something truthy, a diagnostic for every other.
\<close>

definition dependency_line ::
  "string list \<Rightarrow> package list \<Rightarrow> package \<Rightarrow> nat \<Rightarrow> string \<times> string list \<Rightarrow>
   string \<times> nat \<Rightarrow> string \<times> string list" where
  "dependency_line reserved ps p len acc x =
     (case acc of (str, log) \<Rightarrow>
      case x of (depName, idx) \<Rightarrow>
        (if findPackage reserved ps depName = NotFound
         then (str, log @ [''could not find package dependency '' @ depName @ '' by '' @
                           basename p @
                           '', remember packages can't depend on packages in other frameworks''])
         else (str @ ''      \"'' @ depName @ ''\"'' @ (if idx + 1 < len then '',\<newline>'' else []),
               log)))"

definition dependenciesFor ::
  "string list \<Rightarrow> package list \<Rightarrow> package \<Rightarrow> string list \<Rightarrow> string \<times> string list" where
  "dependenciesFor reserved ps p log =
     (case dependencies p of
        None \<Rightarrow> (''\<newline>'', log)
      | Some deps \<Rightarrow>
          (case foldl (dependency_line reserved ps p (length deps))
                  ('',\<newline>    \"dependencies\": [\<newline>'', log) (zip deps [0..<length deps]) of
             (str, log') \<Rightarrow> (str @ ''\<newline>    ]\<newline>'', log')))"

text \<open>
  One round of the loop of \<^verbatim>\<open>manifest\<close>. The key of an entry is the \<^verbatim>\<open>nodeName\<close> of
  the package; \<open>key\<close> says how it is read off the package.
\<close>

definition manifest_entry ::
  "(package \<Rightarrow> string) \<Rightarrow> string list \<Rightarrow> package list \<Rightarrow> nat \<Rightarrow> string \<times> string list \<Rightarrow>
   package \<times> nat \<Rightarrow> error + string \<times> string list" where
  "manifest_entry key reserved ps len acc x =
     (case acc of (manifest, log) \<Rightarrow>
      case x of (p, idx) \<Rightarrow>
        (case findRoot (ancestors p) of
           Inl e \<Rightarrow> Inl e
         | Inr root \<Rightarrow>
             (case dependenciesFor reserved ps p log of (deps, log') \<Rightarrow>
                Inr (manifest @
                     ''  \"'' @ key p @ ''\": {\<newline>'' @
                     ''    \"basename\": '' @ [CHR 0x27] @ basename p @ [CHR 0x27] @ '',\<newline>'' @
                     ''    \"type\": '' @ [CHR 0x27] @ ptype p @ [CHR 0x27] @ '',\<newline>'' @
                     ''    \"rootNode\": '' @ root @ '',\<newline>'' @
                     ''    \"isLoaded\": '' @ (if ptype p = ''core'' then ''true'' else ''false'') @
                     '',\<newline>'' @
                     ''    \"isReady\": '' @ (if ptype p = ''core'' then ''true'' else ''false'') @
                     deps @ ''  }'' @ (if idx + 1 < len then '',\<newline>'' else []),
                     log'))))"

fun manifest_entries ::
  "(package \<Rightarrow> string) \<Rightarrow> string list \<Rightarrow> package list \<Rightarrow> nat \<Rightarrow> string \<times> string list \<Rightarrow>
   (package \<times> nat) list \<Rightarrow> error + string \<times> string list" where
  "manifest_entries key reserved ps len acc [] = Inr acc"
| "manifest_entries key reserved ps len acc (x # xs) =
     (case manifest_entry key reserved ps len acc x of
        Inl e \<Rightarrow> Inl e
      | Inr acc' \<Rightarrow> manifest_entries key reserved ps len acc' xs)"

text \<open>
  \<^verbatim>\<open>BT.Packager.manifest\<close> for a packager with the given packages: the manifest text
  and the console output of the loop. \<^verbatim>\<open>orderedPackages\<close> is cached since \<^verbatim>\<open>init\<close>,
  when the properties \<open>reserved\<close> of the packager were truthy; \<open>later\<close> are those that
  are truthy when the manifest is read.
\<close>

definition manifest_with ::
  "(package \<Rightarrow> string) \<Rightarrow> string list \<Rightarrow> string list \<Rightarrow> package list \<Rightarrow>
   error + string \<times> string list" where
  "manifest_with key reserved later ps =
     (case orderedPackages reserved ps of
        (s, Inl e) \<Rightarrow> Inl e
      | (s, Inr ordered) \<Rightarrow>
          manifest_entries key later (pkgs s) (length ordered) ([], [])
            (zip ordered [0..<length ordered]))"

definition manifest ::
  "string list \<Rightarrow> string list \<Rightarrow> package list \<Rightarrow> error + string \<times> string list" where
  "manifest reserved later ps = manifest_with uuid reserved later ps"

section \<open>Ordering the files of a target\<close>



text \<open>
  A target: its \<^verbatim>\<open>nodeName\<close>, the files that its \<^verbatim>\<open>files\<close> traversal collects, and
  the packages of its packager, if it has one.
\<close>

record target =
  nodeName :: string
  tfiles :: "pfile list"
  packages :: "package list option"









subsection \<open>The uuids of a run\<close>




subsection \<open>Vocabulary for comparing two runs\<close>









section \<open>The project tree\<close>

text \<open>
  A build node is an object whose enumerable own properties include its child nodes. The
  kind of a node is the visitor method that its \<^verbatim>\<open>accept\<close> dispatches to; a target also
  has its declared \<^verbatim>\<open>frameworks\<close>. Children are listed in property order, which is the
  order of \<^verbatim>\<open>for (var key in node)\<close>. The back references \<^verbatim>\<open>project\<close> and
  \<^verbatim>\<open>parentNode\<close> are skipped by every traversal and are not children. The nodes under a
  project form a finite tree: \<^verbatim>\<open>BT.Project.init\<close> traverses all of them when the
  project is created.
\<close>

datatype kind =
  KProject | KApp | KFramework | KLocalization | KTarget | KPackager | KPackage |
  KDirectory | KFile | KBuildNode | KProxy

datatype node = Node (kind: kind) (frameworks: "string list") (children: "(string \<times> node) list")

text \<open>
  \<^verbatim>\<open>findFramework\<close> and \<^verbatim>\<open>findApp\<close> run a visitor that overrides one method and
  inherits \<^verbatim>\<open>traverse\<close> for every other kind. The overridden method compares the
  \<^verbatim>\<open>name\<close> it is called with (the property key; \<^verbatim>\<open>undefined\<close> for the node the search
  starts from) with the wanted name and throws \<^verbatim>\<open>"found-it"\<close> on a match, which ends the
  whole traversal; otherwise it traverses the children.
\<close>

fun find_visit :: "kind \<Rightarrow> string \<Rightarrow> string option \<Rightarrow> node \<Rightarrow> node option"
  and find_traverse :: "kind \<Rightarrow> string \<Rightarrow> (string \<times> node) list \<Rightarrow> node option" where
  "find_visit k str name (Node k' fs cs) =
     (if k' = k \<and> name = Some str then Some (Node k' fs cs) else find_traverse k str cs)"
| "find_traverse k str [] = None"
| "find_traverse k str ((key, c) # cs) =
     (case find_visit k str (Some key) c of
        Some r \<Rightarrow> Some r
      | None \<Rightarrow> find_traverse k str cs)"

definition findFramework :: "node \<Rightarrow> string \<Rightarrow> node option \<Rightarrow> node option" where
  "findFramework project str root =
     find_visit KFramework str None (case root of None \<Rightarrow> project | Some r \<Rightarrow> r)"

definition findApp :: "node \<Rightarrow> string \<Rightarrow> node option" where
  "findApp project str = find_visit KApp str None project"

section \<open>Ordering the frameworks of a target\<close>

text \<open>
  \<^verbatim>\<open>BT.Target.orderedFrameworks\<close>. The inner function \<^verbatim>\<open>processFramework\<close> calls itself
  for every dependency of the framework it has found and then pushes the framework onto
  the shared array \<^verbatim>\<open>ary\<close>; the array is threaded through the model. The recursion has
  no visited set, so the model counts the depth of the recursion down from a bound and
  returns \<open>None\<close> when the bound is used up: a computation that would not return has no
  bound for which the result is \<open>Some\<close>. Neither \<^verbatim>\<open>orderedFrameworks\<close> nor
  \<^verbatim>\<open>findFramework\<close> writes to the console.
\<close>

fun processFramework ::
    "nat \<Rightarrow> node \<Rightarrow> node list \<Rightarrow> string \<Rightarrow> node option \<Rightarrow> node list option"
  and processEach ::
    "nat \<Rightarrow> node \<Rightarrow> node list \<Rightarrow> string list \<Rightarrow> node option \<Rightarrow> node list option" where
  "processFramework 0 project ary name parent = None"
| "processFramework (Suc n) project ary name parent =
     (case findFramework project name parent of
        None \<Rightarrow> Some ary
      | Some framework \<Rightarrow>
          (case processEach n project ary (frameworks framework) (Some framework) of
             None \<Rightarrow> None
           | Some ary' \<Rightarrow> Some (ary' @ [framework])))"
| "processEach n project ary [] parent = Some ary"
| "processEach n project ary (dep # deps) parent =
     (case processFramework n project ary dep parent of
        None \<Rightarrow> None
      | Some ary' \<Rightarrow> processEach n project ary' deps parent)"

text \<open>
  The target is given by its \<^verbatim>\<open>project\<close> (absent for a target outside any project) and
  its \<^verbatim>\<open>frameworks\<close>.
\<close>

definition orderedFrameworks :: "nat \<Rightarrow> node option \<Rightarrow> string list \<Rightarrow> node list option" where
  "orderedFrameworks n project fws =
     (case project of
        None \<Rightarrow> Some []
      | Some p \<Rightarrow> processEach n p [] fws None)"

subsection \<open>The ordering in the words of the specification\<close>

text \<open>The size of a tree, which bounds the depth of every search below it.\<close>

fun weight :: "node \<Rightarrow> nat" and weights :: "(string \<times> node) list \<Rightarrow> nat" where
  "weight (Node k fs cs) = Suc (weights cs)"
| "weights [] = 0"
| "weights ((key, c) # cs) = weight c + weights cs"

definition search_root :: "node \<Rightarrow> node option \<Rightarrow> node" where
  "search_root project parent = (case parent of None \<Rightarrow> project | Some r \<Rightarrow> r)"

text \<open>
  In the words of the specification: a name that is not resolved contributes nothing; a
  name that is resolved contributes, depth first, what the frameworks declared by the
  resolved framework contribute, and then that framework. The frameworks of a target are
  what its declared names contribute, in order.
\<close>

function expand :: "node \<Rightarrow> node option \<Rightarrow> string \<Rightarrow> node list" where
  "expand project parent name =
     (case findFramework project name parent of
        None \<Rightarrow> []
      | Some f \<Rightarrow> concat (map (expand project (Some f)) (frameworks f)) @ [f])"
  by pat_completeness auto
termination
proof (relation "measure (\<lambda>(project, parent, name). weight (search_root project parent))")
  show "wf (measure (\<lambda>(project, parent, name). weight (search_root project parent)))" by simp
next
  fix project :: node and parent :: "node option" and name :: string and f :: node and dep :: string
  assume found: "findFramework project name parent = Some f"
  have "find_visit k str nm n = Some g \<Longrightarrow> weight g \<le> weight n"
    and below: "find_traverse k str cs = Some g \<Longrightarrow> weight g \<le> weights cs"
    for k str nm n cs g
    by (induction k str nm n and k str cs rule: find_visit_find_traverse.induct)
      (auto split: if_splits option.splits)
  obtain k fs cs where r: "search_root project parent = Node k fs cs"
    by (cases "search_root project parent")
  with found have "find_traverse KFramework name cs = Some f"
    by (simp add: findFramework_def search_root_def)
  then have "weight f \<le> weights cs" by (rule below)
  with r have "weight f < weight (search_root project parent)" by simp
  then show "((project, Some f, dep), (project, parent, name))
      \<in> measure (\<lambda>(project, parent, name). weight (search_root project parent))"
    by (simp add: search_root_def)
qed

declare expand.simps [simp del]

definition orderedFrameworks_spec :: "node \<Rightarrow> string list \<Rightarrow> node list" where
  "orderedFrameworks_spec project fws = concat (map (expand project None) fws)"

text \<open>
  Two projects: one whose frameworks \<^verbatim>\<open>a\<close> and \<^verbatim>\<open>b\<close> declare each other, and one with
  embedded frameworks, a name that is declared twice and a name that no framework has.
\<close>

definition framework_a :: node where
  "framework_a = Node KFramework [''b''] [(''core.js'', Node KFile [] [])]"

definition framework_b :: node where
  "framework_b = Node KFramework [''a''] [(''core.js'', Node KFile [] [])]"

definition mutual_project :: node where
  "mutual_project =
     Node KProject []
       [(''app'', Node KApp [''a''] [(''main.js'', Node KFile [] [])]),
        (''a'', framework_a),
        (''b'', framework_b)]"

definition inner_base :: node where
  "inner_base = Node KFramework [] [(''x.js'', Node KFile [] [])]"

definition widgets :: node where
  "widgets = Node KFramework [''base''] [(''base'', inner_base)]"

definition ui :: node where
  "ui = Node KFramework [''widgets'', ''data'', ''base'']
          [(''base'', Node KFramework [] []), (''widgets'', widgets)]"

definition nested_project :: node where
  "nested_project =
     Node KProject []
       [(''app'', Node KApp [''ui'', ''missing'', ''data''] []),
        (''frameworks'', Node KDirectory []
           [(''ui'', ui), (''data'', Node KFramework [] [])])]"

section \<open>Building a project\<close>

text \<open>
  The part of the file system that \<^verbatim>\<open>build\<close> and \<^verbatim>\<open>buildApp\<close> touch: the directories
  that exist, the files with their contents (a later entry for a path replaces an earlier
  one), and the directories that cannot be created, each with the error that
  \<^verbatim>\<open>fs.mkdirSync\<close> throws for it. \<^verbatim>\<open>fs.writeFileSync\<close> is taken to succeed.
\<close>

record filesystem =
  directories :: "string list"
  fileData :: "(string \<times> string) list"
  unwritable :: "(string \<times> string) list"

definition existsSync :: "filesystem \<Rightarrow> string \<Rightarrow> bool" where
  "existsSync fs p = (p \<in> set (directories fs) \<or> p \<in> fst ` set (fileData fs))"

definition mkdirSync :: "filesystem \<Rightarrow> string \<Rightarrow> string + filesystem" where
  "mkdirSync fs p =
     (case map_of (unwritable fs) p of
        Some e \<Rightarrow> Inl e
      | None \<Rightarrow> Inr (fs\<lparr>directories := directories fs @ [p]\<rparr>))"

definition writeFileSync :: "filesystem \<Rightarrow> string \<Rightarrow> string \<Rightarrow> filesystem" where
  "writeFileSync fs p txt = fs\<lparr>fileData := fileData fs @ [(p, txt)]\<rparr>"

definition readFileSync :: "filesystem \<Rightarrow> string \<Rightarrow> string" where
  "readFileSync fs p = (case map_get (fileData fs) p of Some txt \<Rightarrow> txt | None \<Rightarrow> [])"

record bstate =
  fsys :: filesystem
  console :: "string list"
  isBuilding :: bool

definition console_log :: "string \<Rightarrow> bstate \<Rightarrow> bstate" where
  "console_log line s = s\<lparr>console := console s @ [line]\<rparr>"

text \<open>
  The block that both functions use for an output directory: create it unless it exists;
  when that throws, log the failure, the error and \<^verbatim>\<open>'aborting build'\<close> and
  \<^verbatim>\<open>return\<close> from the enclosing function (\<open>Inl\<close>).
\<close>

definition ensure_directory :: "string \<Rightarrow> string \<Rightarrow> bstate \<Rightarrow> bstate + bstate" where
  "ensure_directory what p s =
     (if existsSync (fsys s) p then Inr s
      else (case mkdirSync (fsys s) p of
              Inl e \<Rightarrow>
                Inl (console_log ''aborting build''
                      (console_log e
                        (console_log (''failed to create '' @ what @ '' directory at '' @ p) s)))
            | Inr fs' \<Rightarrow> Inr (s\<lparr>fsys := fs'\<rparr>)))"

text \<open>
  \<^verbatim>\<open>BT.Project.buildApp\<close>. The parameters \<open>html\<close> and \<open>sources\<close> stand for the
  properties \<^verbatim>\<open>productionIndexHTML\<close> and \<^verbatim>\<open>javascriptSourceFiles\<close> of an app,
  \<open>toolBuildPath\<close> for \<^verbatim>\<open>path.join(__dirname, '../build')\<close>. The app's \<^verbatim>\<open>nodeName\<close> is
  the key it is found under.
\<close>

definition buildApp ::
  "(node \<Rightarrow> string) \<Rightarrow> (node \<Rightarrow> string list) \<Rightarrow> string \<Rightarrow> node \<Rightarrow> string \<Rightarrow> bstate \<Rightarrow> bstate"
  where
  "buildApp html sources toolBuildPath project name s =
     (case findApp project name of
        None \<Rightarrow> console_log (''Build error: '' @ name @ '' could not be found.'') s
      | Some app \<Rightarrow>
          (case ensure_directory ''build'' toolBuildPath s of
             Inl s' \<Rightarrow> s'
           | Inr s1 \<Rightarrow>
               (let appPath = path_join toolBuildPath name in
                case ensure_directory ''app'' appPath s1 of
                  Inl s' \<Rightarrow> s'
                | Inr s2 \<Rightarrow>
                    (let fs1 = writeFileSync (fsys s2) (path_join appPath ''index.html'') (html app);
                         javascript =
                           join_with '';\<newline>''
                             (map (readFileSync fs1) (filter (existsSync fs1) (sources app)))
                     in s2\<lparr>fsys := writeFileSync fs1 (path_join appPath ''application.js'')
                                     javascript\<rparr>))))"

text \<open>
  \<^verbatim>\<open>BT.Project.build\<close>. Its visitor overrides \<^verbatim>\<open>visitApp\<close>: log the name, build the
  app, then traverse the children. Every other kind is traversed. The project itself is
  dispatched to \<^verbatim>\<open>visitProject\<close>, so the walk starts with its children.
\<close>

fun build_visit ::
    "(string \<Rightarrow> bstate \<Rightarrow> bstate) \<Rightarrow> string \<Rightarrow> node \<Rightarrow> bstate \<Rightarrow> bstate"
  and build_traverse ::
    "(string \<Rightarrow> bstate \<Rightarrow> bstate) \<Rightarrow> (string \<times> node) list \<Rightarrow> bstate \<Rightarrow> bstate" where
  "build_visit doApp name (Node k fs cs) s =
     (if k = KApp then build_traverse doApp cs (doApp name (console_log (name @ '' ...'') s))
      else build_traverse doApp cs s)"
| "build_traverse doApp [] s = s"
| "build_traverse doApp ((key, c) # cs) s = build_traverse doApp cs (build_visit doApp key c s)"

definition build ::
  "(node \<Rightarrow> string) \<Rightarrow> (node \<Rightarrow> string list) \<Rightarrow> string \<Rightarrow> string \<Rightarrow> string \<Rightarrow>
   node \<Rightarrow> bstate \<Rightarrow> bstate" where
  "build html sources indexHTML toolBuildPath projectPath project s =
     (let s1 = build_traverse (buildApp html sources toolBuildPath project) (children project)
                 (s\<lparr>isBuilding := True\<rparr>);
          buildPath = path_join projectPath ''build'';
          s2 = console_log (''Building apps in  '' @ buildPath) s1
      in case ensure_directory ''build'' buildPath s2 of
           Inl s' \<Rightarrow> s'
         | Inr s3 \<Rightarrow>
             (let s4 = console_log ''Writing index.html ...'' s3;
                  s5 = s4\<lparr>fsys := writeFileSync (fsys s4) (path_join buildPath ''index.html'')
                                    indexHTML\<rparr>
              in console_log ''Done.'' (s5\<lparr>isBuilding := False\<rparr>)))"

subsection \<open>A project with two apps, the first of which gets no output directory\<close>

definition two_apps :: node where
  "two_apps =
     Node KProject []
       [(''one'', Node KApp [] [(''main.js'', Node KFile [] [])]),
        (''two'', Node KApp [] [(''main.js'', Node KFile [] [])])]"

definition no_room_for_one :: bstate where
  "no_room_for_one =
     \<lparr>fsys = \<lparr>directories = [''/tool/build'', ''/proj''],
              fileData = [(''/proj/two/main.js'', ''two()'')],
              unwritable = [(''/tool/build/one'', ''Error: EACCES, permission denied'')]\<rparr>,
      console = [], isBuilding = False\<rparr>"

definition app_sources :: "node \<Rightarrow> string list" where
  "app_sources app = [''/proj/two/main.js'']"

definition app_html :: "node \<Rightarrow> string" where
  "app_html app = ''<html></html>''"

section \<open>Properties of the dependency graph\<close>

lemma registered_empty: "registered empty_graph"
  by (simp add: registered_def empty_graph_def)

lemma vertices_addVertex: "set (vertices (addVertex v g)) = insert v (set (vertices g))"
  by (auto simp: addVertex_def)

lemma edges_addVertex: "edges (addVertex v g) = edges g"
  by (simp add: addVertex_def)

lemma registered_addVertex: "registered g \<Longrightarrow> registered (addVertex v g)"
  by (simp add: registered_def vertices_addVertex edges_addVertex)

lemma vertices_addEdge: "set (vertices (addEdge a b g)) = insert a (insert b (set (vertices g)))"
  by (auto simp: addEdge_def Let_def vertices_addVertex)

lemma edges_addEdge: "edges (addEdge a b g) = edges g @ [(a, b)]"
  by (simp add: addEdge_def Let_def edges_addVertex)

lemma registered_addEdge: "registered g \<Longrightarrow> registered (addEdge a b g)"
  by (auto simp: registered_def vertices_addEdge edges_addEdge)

lemma registered_calls: "registered g \<Longrightarrow> registered (foldl apply_call g calls)"
proof (induction calls arbitrary: g)
  case Nil
  then show ?case by simp
next
  case (Cons c calls)
  have "registered (apply_call g c)"
    using Cons.prems by (cases c) (simp_all add: registered_addVertex registered_addEdge)
  then show ?case using Cons.IH by simp
qed

text \<open>Every vertex on a cycle has a predecessor on a cycle.\<close>

lemma cycle_predecessor:
  assumes "(v, v) \<in> R\<^sup>+"
  shows "\<exists>u. (u, v) \<in> R \<and> (u, u) \<in> R\<^sup>+"
proof -
  from assms obtain u where vu: "(v, u) \<in> R\<^sup>*" and uv: "(u, v) \<in> R"
    by (auto elim: tranclE intro: trancl_into_rtrancl)
  from uv vu have "(u, u) \<in> R\<^sup>+" by (rule rtrancl_into_trancl2)
  with uv show ?thesis by blast
qed

lemma sort_loop_Nil: "sort_loop es [] out = Inr out"
  by (simp add: sort_loop.simps)

lemma sort_loop_step:
  "waiting \<noteq> [] \<Longrightarrow> sort_loop es waiting out =
     (case find (ready es waiting) waiting of
        None \<Rightarrow> Inl CycleDetected
      | Some v \<Rightarrow> sort_loop es (removeAll v waiting) (out @ [v]))"
  by (subst sort_loop.simps) simp

lemma sort_loop_cycle:
  assumes "(c, c) \<in> (set es)\<^sup>+" and "{v. (v, v) \<in> (set es)\<^sup>+} \<subseteq> set waiting"
  shows "sort_loop es waiting out = Inl CycleDetected"
  using assms
proof (induction es waiting out rule: sort_loop.induct)
  case (1 es waiting out)
  from "1.prems" have ne: "waiting \<noteq> []" by auto
  show ?case
  proof (cases "find (ready es waiting) waiting")
    case None
    with ne show ?thesis by (simp add: sort_loop_step)
  next
    case (Some v)
    then have rv: "ready es waiting v" by (auto simp: find_Some_iff)
    have "(v, v) \<notin> (set es)\<^sup>+"
    proof
      assume "(v, v) \<in> (set es)\<^sup>+"
      then obtain u where "(u, v) \<in> set es" "(u, u) \<in> (set es)\<^sup>+"
        using cycle_predecessor by metis
      with "1.prems" rv show False by (fastforce simp: ready_def)
    qed
    with "1.prems" have "{v. (v, v) \<in> (set es)\<^sup>+} \<subseteq> set (removeAll v waiting)" by auto
    with "1.IH" [OF ne Some "1.prems"(1)]
    have "sort_loop es (removeAll v waiting) (out @ [v]) = Inl CycleDetected" .
    with ne Some show ?thesis by (simp add: sort_loop_step)
  qed
qed

lemma registered_cycle_fails:
  assumes "registered g" "has_cycle g"
  shows "topologicalSort g = Inl CycleDetected"
proof -
  from assms(2) obtain c where c: "(c, c) \<in> (set (edges g))\<^sup>+" by (auto simp: has_cycle_def)
  have "{v. (v, v) \<in> (set (edges g))\<^sup>+} \<subseteq> set (vertices g)"
  proof clarify
    fix v assume "(v, v) \<in> (set (edges g))\<^sup>+"
    then obtain u where "(u, v) \<in> set (edges g)" using cycle_predecessor by metis
    with assms(1) show "v \<in> set (vertices g)" by (fastforce simp: registered_def)
  qed
  with c show ?thesis unfolding topologicalSort_def by (rule sort_loop_cycle)
qed

lemma sort_loop_set: "sort_loop es waiting out = Inr res \<Longrightarrow> set res = set out \<union> set waiting"
proof (induction es waiting out rule: sort_loop.induct)
  case (1 es waiting out)
  show ?case
  proof (cases "waiting = []")
    case True
    with "1.prems" show ?thesis by (simp add: sort_loop_Nil)
  next
    case False
    with "1.prems" obtain v where f: "find (ready es waiting) waiting = Some v"
      and r: "sort_loop es (removeAll v waiting) (out @ [v]) = Inr res"
      by (auto simp: sort_loop_step split: option.splits)
    from f have "v \<in> set waiting" by (auto simp: find_Some_iff)
    with "1.IH" [OF False f r] show ?thesis by auto
  qed
qed


lemma topologicalSort_set: "topologicalSort g = Inr vs \<Longrightarrow> set vs = set (vertices g)"
  using sort_loop_set [of "edges g" "vertices g" "[]" vs] by (simp add: topologicalSort_def)

text \<open>
  The sort as modelled meets its contract: an order that it returns has every vertex
  exactly once and the source of every edge before its target.
\<close>

lemma before_append: "before a b xs \<Longrightarrow> before a b (xs @ ys)"
  by (induction xs) (auto split: if_splits)

lemma before_snoc: "a \<in> set xs \<Longrightarrow> before a v (xs @ [v])"
  by (induction xs) auto

lemma sort_loop_order:
  assumes "sort_loop es waiting out = Inr res"
    and "\<forall>e \<in> set es. fst e \<in> set out \<union> set waiting"
    and "\<forall>e \<in> set es. snd e \<in> set out \<longrightarrow> before (fst e) (snd e) out"
    and "distinct out" and "set out \<inter> set waiting = {}"
  shows "distinct res \<and> (\<forall>e \<in> set es. snd e \<in> set res \<longrightarrow> before (fst e) (snd e) res)"
  using assms
proof (induction es waiting out rule: sort_loop.induct)
  case (1 es waiting out)
  show ?case
  proof (cases "waiting = []")
    case True
    with "1.prems" show ?thesis by (simp add: sort_loop_Nil)
  next
    case False
    with "1.prems"(1) obtain v where f: "find (ready es waiting) waiting = Some v"
      and r: "sort_loop es (removeAll v waiting) (out @ [v]) = Inr res"
      by (auto simp: sort_loop_step split: option.splits)
    from f have vw: "v \<in> set waiting" and rv: "ready es waiting v"
      by (auto simp: find_Some_iff)
    have a: "\<forall>e \<in> set es. fst e \<in> set (out @ [v]) \<union> set (removeAll v waiting)"
      using "1.prems"(2) by auto
    have b: "\<forall>e \<in> set es. snd e \<in> set (out @ [v]) \<longrightarrow> before (fst e) (snd e) (out @ [v])"
    proof (intro ballI impI)
      fix e assume e: "e \<in> set es" and s: "snd e \<in> set (out @ [v])"
      show "before (fst e) (snd e) (out @ [v])"
      proof (cases "snd e \<in> set out")
        case True
        with "1.prems"(3) e show ?thesis by (simp add: before_append)
      next
        case False
        with s have sv: "snd e = v" by simp
        with rv e have "fst e \<notin> set waiting" by (auto simp: ready_def)
        with "1.prems"(2) e have "fst e \<in> set out" by auto
        with sv show ?thesis by (simp add: before_snoc)
      qed
    qed
    have c: "distinct (out @ [v])" using "1.prems"(4,5) vw by auto
    have d: "set (out @ [v]) \<inter> set (removeAll v waiting) = {}" using "1.prems"(5) by auto
    from "1.IH" [OF False f r a b c d] show ?thesis .
  qed
qed

lemma topologicalSort_order:
  assumes "registered g" "topologicalSort g = Inr vs"
  shows "distinct vs \<and> set vs = set (vertices g) \<and>
         (\<forall>e \<in> set (edges g). before (fst e) (snd e) vs)"
proof -
  have s: "set vs = set (vertices g)" using assms(2) by (rule topologicalSort_set)
  have "distinct vs \<and> (\<forall>e \<in> set (edges g). snd e \<in> set vs \<longrightarrow> before (fst e) (snd e) vs)"
    using assms by (intro sort_loop_order [of "edges g" "vertices g" "[]"])
      (auto simp: topologicalSort_def registered_def)
  with s assms(1) show ?thesis by (auto simp: registered_def)
qed

text \<open>Both sorts return every vertex of the graph.\<close>

lemma topologicalSort_returns_every_vertex: "returns_every_vertex topologicalSort"
  by (simp add: returns_every_vertex_def topologicalSort_set)

lemma sort_ignoring_loops_returns_every_vertex: "returns_every_vertex sort_ignoring_loops"
proof -
  have "set vs = set (vertices g)" if "sort_ignoring_loops g = Inr vs" for g :: "'a graph" and vs
    using topologicalSort_set [of "g\<lparr>edges := filter (\<lambda>e. fst e \<noteq> snd e) (edges g)\<rparr>" vs] that
    by (simp add: sort_ignoring_loops_def)
  then show ?thesis by (simp add: returns_every_vertex_def)
qed


section \<open>Properties of the file ordering\<close>

lemma emit_vertex_Some:
  "object_get m v = Some dep \<Longrightarrow> emit_vertex p cp m (ret, log) v = (ret @ [dep], log)"
  by (simp add: emit_vertex_def)

lemma emit_vertex_None:
  "object_get m v = None \<Longrightarrow>
   emit_vertex p cp m (ret, log) v =
     (if v = cp then (ret, log) else (ret, log @ [diagnostic p v]))"
  by (simp add: emit_vertex_def)

lemma emit_vertices_fst:
  "fst (foldl (emit_vertex p cp m) (ret, log) vs) = ret @ List.map_filter (object_get m) vs"
proof (induction vs arbitrary: ret log)
  case Nil
  show ?case by (simp add: map_filter_simps)
next
  case (Cons v vs)
  show ?case
    by (cases "object_get m v")
      (simp_all add: emit_vertex_Some emit_vertex_None Cons.IH map_filter_simps)
qed

lemma emit_vertices_snd:
  "snd (foldl (emit_vertex p cp m) (ret, log) vs) =
     log @ map (diagnostic p) (filter (\<lambda>v. object_get m v = None \<and> v \<noteq> cp) vs)"
proof (induction vs arbitrary: ret log)
  case Nil
  show ?case by simp
next
  case (Cons v vs)
  show ?case
    by (cases "object_get m v") (simp_all add: emit_vertex_Some emit_vertex_None Cons.IH)
qed

lemma vertices_add_edges:
  "set (vertices (foldl (\<lambda>g name. addEdge name dp g) g ds)) \<supseteq> set (vertices g) \<union> set ds"
proof (induction ds arbitrary: g)
  case Nil
  show ?case by simp
next
  case (Cons d ds)
  show ?case using Cons.IH [of "addEdge d dp g"] by (auto simp: vertices_addEdge)
qed

lemma add_file_Inr:
  assumes "add_file cp st f = Inr st'"
  shows "\<exists>ds. scRequireDependencies f = Inr ds \<and>
           fmap st' = fmap st @ [(dependencyPath f, f)] \<and>
           set (vertices (fgraph st)) \<union> set ds \<union> {dependencyPath f} \<subseteq> set (vertices (fgraph st'))"
proof (cases "scRequireDependencies f")
  case (Inl e)
  with assms show ?thesis by (simp add: add_file_def)
next
  case (Inr ds)
  let ?dp = "dependencyPath f"
  let ?g2 = "foldl (\<lambda>g name. addEdge name ?dp g) (addVertex ?dp (fgraph st)) ds"
  from assms Inr have st': "st' = \<lparr>fgraph = addEdge cp ?dp ?g2, fmap = fmap st @ [(?dp, f)]\<rparr>"
    by (simp add: add_file_def Let_def split: if_splits)
  have "set (vertices (addVertex ?dp (fgraph st))) \<union> set ds \<subseteq> set (vertices ?g2)"
    by (rule vertices_add_edges)
  then have "set (vertices (fgraph st)) \<union> set ds \<union> {?dp} \<subseteq> set (vertices (fgraph st'))"
    by (auto simp: st' vertices_addEdge vertices_addVertex)
  with Inr st' show ?thesis by simp
qed

lemma add_files_Inr:
  assumes "add_files cp st files = Inr st'"
  shows "fmap st' = fmap st @ map (\<lambda>f. (dependencyPath f, f)) files \<and>
         set (vertices (fgraph st)) \<subseteq> set (vertices (fgraph st')) \<and>
         (\<forall>f \<in> set files. \<exists>ds. scRequireDependencies f = Inr ds \<and>
            set ds \<union> {dependencyPath f} \<subseteq> set (vertices (fgraph st')))"
  using assms
proof (induction files arbitrary: st)
  case Nil
  then show ?case by simp
next
  case (Cons f files)
  from Cons.prems obtain st1 where a: "add_file cp st f = Inr st1"
    and b: "add_files cp st1 files = Inr st'"
    by (auto split: sum.splits)
  from add_file_Inr [OF a] obtain ds where ds: "scRequireDependencies f = Inr ds"
    and m: "fmap st1 = fmap st @ [(dependencyPath f, f)]"
    and v: "set (vertices (fgraph st)) \<union> set ds \<union> {dependencyPath f} \<subseteq> set (vertices (fgraph st1))"
    by blast
  from Cons.IH [OF b] have m': "fmap st' = fmap st1 @ map (\<lambda>f. (dependencyPath f, f)) files"
    and v': "set (vertices (fgraph st1)) \<subseteq> set (vertices (fgraph st'))"
    and r: "\<forall>f \<in> set files. \<exists>ds. scRequireDependencies f = Inr ds \<and>
            set ds \<union> {dependencyPath f} \<subseteq> set (vertices (fgraph st'))"
    by simp_all
  have "fmap st' = fmap st @ map (\<lambda>f. (dependencyPath f, f)) (f # files)"
    using m m' by simp
  moreover have "set (vertices (fgraph st)) \<subseteq> set (vertices (fgraph st'))"
    using v v' by blast
  moreover have "\<exists>ds. scRequireDependencies f = Inr ds \<and>
      set ds \<union> {dependencyPath f} \<subseteq> set (vertices (fgraph st'))"
    using ds v v' by blast
  ultimately show ?case using r by simp
qed

lemma map_get_None: "map_get m k = None \<longleftrightarrow> k \<notin> fst ` set m"
  by (simp add: map_get_def map_of_eq_None_iff)

lemma map_get_unique:
  assumes "(k, x) \<in> set m" "\<forall>y. (k, y) \<in> set m \<longrightarrow> y = x"
  shows "map_get m k = Some x"
proof (cases "map_get m k")
  case None
  with assms(1) show ?thesis by (force simp: map_get_None)
next
  case (Some y)
  then have "(k, y) \<in> set m" by (auto simp: map_get_def dest: map_of_SomeD)
  with assms(2) Some show ?thesis by simp
qed

lemma object_get_None:
  "object_get m k = None \<longleftrightarrow> k \<notin> fst ` set m \<and> k \<notin> set object_prototype"
proof (cases "map_get m k")
  case None
  then have "k \<notin> fst ` set m" by (simp add: map_get_None)
  with None show ?thesis by (simp add: object_get_def)
next
  case (Some x)
  then have "k \<in> fst ` set m" using map_get_None [of m k] by auto
  with Some show ?thesis by (simp add: object_get_def)
qed

lemma object_get_File: "object_get m k = Some (File x) \<longleftrightarrow> map_get m k = Some x"
  by (cases "map_get m k") (simp_all add: object_get_def)

lemma orderFiles_with_Inr:
  assumes "orderFiles_with srt p files = Inr (ret, log)" and "returns_every_vertex srt"
  shows "\<exists>vs m. m = map (\<lambda>f. (dependencyPath f, f)) files \<and>
           ret = List.map_filter (object_get m) vs \<and>
           log = map (diagnostic p)
                   (filter (\<lambda>v. object_get m v = None \<and> v \<noteq> path_join (requirePath p) ''core'') vs) \<and>
           (\<forall>f \<in> set files. \<exists>ds. scRequireDependencies f = Inr ds \<and>
              set ds \<union> {dependencyPath f} \<subseteq> set vs)"
proof -
  let ?cp = "path_join (requirePath p) ''core''"
  have "\<exists>st. add_files ?cp \<lparr>fgraph = empty_graph, fmap = []\<rparr> files = Inr st"
    using assms(1)
    by (cases "add_files ?cp \<lparr>fgraph = empty_graph, fmap = []\<rparr> files")
      (simp_all add: orderFiles_with_def Let_def)
  then obtain st where a: "add_files ?cp \<lparr>fgraph = empty_graph, fmap = []\<rparr> files = Inr st"
    by blast
  have "\<exists>vs. srt (fgraph st) = Inr vs"
    using assms(1) a by (cases "srt (fgraph st)") (simp_all add: orderFiles_with_def Let_def)
  then obtain vs where s: "srt (fgraph st) = Inr vs" by blast
  from assms(1) a s have r: "foldl (emit_vertex p ?cp (fmap st)) ([], []) vs = (ret, log)"
    by (simp add: orderFiles_with_def Let_def)
  from add_files_Inr [OF a] have m: "fmap st = map (\<lambda>f. (dependencyPath f, f)) files"
    and v: "\<forall>f \<in> set files. \<exists>ds. scRequireDependencies f = Inr ds \<and>
            set ds \<union> {dependencyPath f} \<subseteq> set (vertices (fgraph st))"
    by simp_all
  have all: "set (vertices (fgraph st)) \<subseteq> set vs"
    by (rule assms(2) [unfolded returns_every_vertex_def, rule_format, OF s])
  from emit_vertices_fst [of p ?cp "fmap st" "[]" "[]" vs] r
  have 1: "ret = List.map_filter (object_get (fmap st)) vs" by simp
  from emit_vertices_snd [of p ?cp "fmap st" "[]" "[]" vs] r
  have 2: "log = map (diagnostic p) (filter (\<lambda>v. object_get (fmap st) v = None \<and> v \<noteq> ?cp) vs)"
    by simp
  have 3: "\<forall>f \<in> set files. \<exists>ds. scRequireDependencies f = Inr ds \<and>
            set ds \<union> {dependencyPath f} \<subseteq> set vs"
  proof
    fix f assume "f \<in> set files"
    with v obtain ds where "scRequireDependencies f = Inr ds"
      and "set ds \<union> {dependencyPath f} \<subseteq> set (vertices (fgraph st))" by blast
    with all have "scRequireDependencies f = Inr ds \<and> set ds \<union> {dependencyPath f} \<subseteq> set vs"
      by (simp only: subset_trans simp_thms)
    then show "\<exists>ds. scRequireDependencies f = Inr ds \<and>
            set ds \<union> {dependencyPath f} \<subseteq> set vs" ..
  qed
  show ?thesis
    using 1 2 3 unfolding m by (intro exI [of _ vs] exI [of _ "map (\<lambda>f. (dependencyPath f, f)) files"] conjI refl)
qed

text \<open>
  Claim C6, as amended. Let the sort be any function that returns every vertex of its
  graph (as \<^verbatim>\<open>topologicalSort\<close> does, whether or not it accepts the edge from the entry
  vertex to itself). When \<^verbatim>\<open>orderFiles\<close> returns, a file \<open>f\<close> of the package that
  declares a dependency path \<open>d\<close> matching no file of the package has a diagnostic for
  \<open>d\<close> in the log, unless \<open>d\<close> is the entry path \<^verbatim>\<open>core\<close> of the package, for which
  nothing is ever logged, or \<open>d\<close> names a property of \<^verbatim>\<open>Object.prototype\<close>. A file with
  the dependency path of \<open>f\<close> is in the returned list: \<open>f\<close> itself when no other file of
  the package has that dependency path.
\<close>

theorem orderFiles_reports_unresolved_dependency:
  assumes srt: "returns_every_vertex srt"
    and ok: "orderFiles_with srt p files = Inr (ret, log)"
    and f: "f \<in> set files" and ds: "scRequireDependencies f = Inr ds" and d: "d \<in> set ds"
    and unknown: "d \<notin> dependencyPath ` set files"
  shows "(d \<noteq> path_join (requirePath p) ''core'' \<and> d \<notin> set object_prototype \<longrightarrow>
            diagnostic p d \<in> set log) \<and>
         diagnostic p (path_join (requirePath p) ''core'') \<notin> set log \<and>
         (\<exists>f' \<in> set files. File f' \<in> set ret \<and> dependencyPath f' = dependencyPath f) \<and>
         ((\<forall>f' \<in> set files. dependencyPath f' = dependencyPath f \<longrightarrow> f' = f) \<longrightarrow>
            File f \<in> set ret)"
proof -
  let ?cp = "path_join (requirePath p) ''core''"
  let ?m = "map (\<lambda>f. (dependencyPath f, f)) files"
  from orderFiles_with_Inr [OF ok srt] obtain vs where
    ret: "ret = List.map_filter (object_get ?m) vs"
    and log: "log = map (diagnostic p) (filter (\<lambda>v. object_get ?m v = None \<and> v \<noteq> ?cp) vs)"
    and v: "\<forall>f \<in> set files. \<exists>ds. scRequireDependencies f = Inr ds \<and>
              set ds \<union> {dependencyPath f} \<subseteq> set vs"
    by blast
  from v f ds d have dv: "d \<in> set vs" and fv: "dependencyPath f \<in> set vs" by fastforce+
  have dn: "d \<notin> set object_prototype \<Longrightarrow> object_get ?m d = None"
    using unknown by (force simp: object_get_None)
  have 1: "d \<noteq> ?cp \<and> d \<notin> set object_prototype \<longrightarrow> diagnostic p d \<in> set log"
    using dv dn by (auto simp: log)
  have inj: "diagnostic p a = diagnostic p b \<Longrightarrow> a = b" for a b
    by (simp add: diagnostic_def)
  have 2: "diagnostic p ?cp \<notin> set log"
    by (auto simp: log dest: inj)
  obtain f' where f': "map_get ?m (dependencyPath f) = Some f'"
    using f by (cases "map_get ?m (dependencyPath f)") (force simp: map_get_None)+
  then have "(dependencyPath f, f') \<in> set ?m"
    by (auto simp: map_get_def dest: map_of_SomeD)
  then have in_files: "f' \<in> set files" and same: "dependencyPath f' = dependencyPath f"
    by auto
  from f' have "object_get ?m (dependencyPath f) = Some (File f')"
    by (simp add: object_get_File)
  with fv have in_ret: "File f' \<in> set ret"
    by (force simp: ret List.map_filter_def)
  have 4: "File f \<in> set ret"
    if "\<forall>f' \<in> set files. dependencyPath f' = dependencyPath f \<longrightarrow> f' = f"
    using that in_files same in_ret by auto
  from 1 2 in_ret in_files same 4 show ?thesis by blast
qed

text \<open>
  An instance, with a sort that takes no account of the edge from the entry vertex to
  itself: in \<open>core_missing_dep\<close> the file \<^verbatim>\<open>b.js\<close> requires \<^verbatim>\<open>core.js\<close> and a file
  that does not exist; the diagnostic is logged and \<^verbatim>\<open>b.js\<close> is returned after
  \<^verbatim>\<open>core.js\<close>.
\<close>

theorem orderFiles_reports_unresolved_dependency_witness:
  "returns_every_vertex (sort_ignoring_loops :: string graph \<Rightarrow> error + string list) \<and>
   orderFiles_with sort_ignoring_loops pkg_node core_missing_dep =
     Inr ([File (core_missing_dep ! 0), File (core_missing_dep ! 1)],
          [''could not find app/packages/pkg package dependency: packages/pkg/missing'']) \<and>
   scRequireDependencies (core_missing_dep ! 1) =
     Inr [''packages/pkg/core'', ''packages/pkg/missing''] \<and>
   ''packages/pkg/missing'' \<notin> dependencyPath ` set core_missing_dep \<and>
   ''packages/pkg/missing'' \<noteq> path_join (requirePath pkg_node) ''core'' \<and>
   ''packages/pkg/missing'' \<notin> set object_prototype \<and>
   list_all (\<lambda>f'. dependencyPath f' = dependencyPath (core_missing_dep ! 1) \<longrightarrow>
               f' = core_missing_dep ! 1) core_missing_dep \<and>
   diagnostic pkg_node ''packages/pkg/missing''
     \<in> set [''could not find app/packages/pkg package dependency: packages/pkg/missing''] \<and>
   File (core_missing_dep ! 1) \<in> set [File (core_missing_dep ! 0), File (core_missing_dep ! 1)]"
proof -
  let ?f = "core_missing_dep ! 1" and ?d = "''packages/pkg/missing''"
  let ?log = "[''could not find app/packages/pkg package dependency: packages/pkg/missing'']"
  let ?ret = "[File (core_missing_dep ! 0), File ?f]"
  have srt: "returns_every_vertex (sort_ignoring_loops :: string graph \<Rightarrow> error + string list)"
    by (rule sort_ignoring_loops_returns_every_vertex)
  have ok: "orderFiles_with sort_ignoring_loops pkg_node core_missing_dep = Inr (?ret, ?log)"
    by code_simp
  have f: "?f \<in> set core_missing_dep" by (simp add: core_missing_dep_def)
  have ds: "scRequireDependencies ?f = Inr [''packages/pkg/core'', ?d]" by code_simp
  have d: "?d \<in> set [''packages/pkg/core'', ?d]" by simp
  have unknown: "?d \<notin> dependencyPath ` set core_missing_dep" by code_simp
  have unique: "list_all (\<lambda>f'. dependencyPath f' = dependencyPath ?f \<longrightarrow> f' = ?f) core_missing_dep"
    by code_simp
  then have unique': "\<forall>f' \<in> set core_missing_dep. dependencyPath f' = dependencyPath ?f \<longrightarrow> f' = ?f"
    by (simp add: list_all_iff)
  have ne: "?d \<noteq> path_join (requirePath pkg_node) ''core''" by code_simp
  have np: "?d \<notin> set object_prototype" by code_simp
  note t = orderFiles_reports_unresolved_dependency [OF srt ok f ds d unknown]
  from t ne np have a: "diagnostic pkg_node ?d \<in> set ?log" by blast
  from t unique' have b: "File ?f \<in> set ?ret" by blast
  from srt ok ds unknown ne np unique a b show ?thesis by blast
qed

text \<open>
  Claim C6 as stated fails in two ways. A file whose dependency path is also that of a
  later file: \<^verbatim>\<open>a.coffee\<close> declares a dependency that matches no file, the diagnostic
  is logged, but \<^verbatim>\<open>a.js\<close> has taken its place in \<^verbatim>\<open>map\<close> and \<^verbatim>\<open>a.coffee\<close> is not
  returned. A declared path that names a property of \<^verbatim>\<open>Object.prototype\<close>:
  \<^verbatim>\<open>sc_require('../../toString')\<close> matches no file, but \<^verbatim>\<open>map['toString']\<close> is the
  inherited function, which is pushed onto the result, and no diagnostic is logged.
\<close>

theorem orderFiles_shadowed_file_counterexample:
  "scRequireDependencies (same_stem ! 0) = Inr [''packages/pkg/missing''] \<and>
   ''packages/pkg/missing'' \<notin> dependencyPath ` set same_stem \<and>
   orderFiles pkg_node same_stem =
     Inr ([File (same_stem ! 1)],
          [''could not find app/packages/pkg package dependency: packages/pkg/missing'']) \<and>
   same_stem ! 0 \<noteq> same_stem ! 1 \<and>
   scRequireDependencies (inherited_dep ! 0) = Inr [''toString''] \<and>
   ''toString'' \<notin> dependencyPath ` set inherited_dep \<and>
   ''toString'' \<noteq> path_join (requirePath pkg_node) ''core'' \<and>
   orderFiles pkg_node inherited_dep = Inr ([Inherited ''toString'', File (inherited_dep ! 0)], [])"
  by code_simp





text \<open>
  A sort that counts the edge from the vertex of \<^verbatim>\<open>core.js\<close> to itself as a cycle, as
  \<^verbatim>\<open>topologicalSort\<close> does when the specification of the missing module is taken by
  the letter, does not order this graph: with it \<^verbatim>\<open>orderFiles\<close> ends with the cycle
  error for this package.
\<close>

lemma orderFiles_core_a_b_literal: "orderFiles pkg_node core_a_b = Inl CycleDetected"
  by code_simp

section \<open>Declared dependencies of a file\<close>

lemma map_filter_append: "List.map_filter f (xs @ ys) = List.map_filter f xs @ List.map_filter f ys"
  by (simp add: List.map_filter_def)

lemma foldl_scan_statement:
  "foldl scan_statement ary sts = ary @ List.map_filter re_exec sts"
  by (induction sts arbitrary: ary) (simp_all add: scan_statement_def split: option.splits)

lemma foldl_scan_line:
  "foldl scan_line ary lines =
     ary @ List.map_filter re_exec (concat (map (split_on CHR '';'') lines))"
  by (induction lines arbitrary: ary)
    (simp_all add: scan_line_def foldl_scan_statement map_filter_append)

lemma foldl_push_joined:
  "foldl (\<lambda>ret required. ret @ [path_join rp required]) acc ary = acc @ map (path_join rp) ary"
  by (induction ary arbitrary: acc) simp_all

lemma scRequireDependencies_eq:
  "contents f = Some c \<Longrightarrow>
   scRequireDependencies f = Inr (map (path_join (requirePath f)) (declared_ids c))"
  by (simp add: scRequireDependencies_def File_scRequireDependencies_def foldl_scan_line
      foldl_push_joined declared_ids_def statements_def)



lemma take1_paren: "take 1 xs = '')'' \<longleftrightarrow> (\<exists>post. xs = CHR '')'' # post)"
  by (cases xs) auto

lemma capture_sound:
  "capture q r = Some c \<Longrightarrow> (\<exists>post. r = c @ q # CHR '')'' # post) \<and> (\<forall>x \<in> set c. is_dot x)"
proof (induction r arbitrary: c)
  case Nil
  then show ?case by simp
next
  case (Cons x xs)
  show ?case
  proof (cases "if is_dot x then capture q xs else None")
    case None
    with Cons.prems have "c = []" "x = q" "take 1 xs = '')''"
      by (auto split: if_splits)
    then show ?thesis using take1_paren [of xs] by auto
  next
    case (Some c')
    with Cons.prems have c: "c = x # c'" and d: "is_dot x" and r: "capture q xs = Some c'"
      by (auto split: if_splits)
    from Cons.IH [OF r] c d show ?thesis by auto
  qed
qed

lemma capture_complete:
  "(\<forall>x \<in> set c. is_dot x) \<Longrightarrow> \<exists>c'. capture q (c @ q # CHR '')'' # post) = Some c'"
proof (induction c)
  case Nil
  show ?case by (cases "if is_dot q then capture q (CHR '')'' # post) else None") auto
next
  case (Cons x c)
  then obtain c' where "capture q (c @ q # CHR '')'' # post) = Some c'" by auto
  with Cons.prems show ?case by simp
qed

lemma match_here_sound: "match_here s = Some c \<Longrightarrow> is_call s c"
proof -
  assume a: "match_here s = Some c"
  then have p: "take 11 s = ''sc_require(''" by (auto simp: match_here_def split: if_splits)
  from a p obtain q rest where d: "drop 11 s = q # rest" and q: "q = CHR 0x27 \<or> q = CHR 0x22"
    and cap: "capture q rest = Some c"
    by (auto simp: match_here_def split: list.splits if_splits)
  from capture_sound [OF cap] obtain post where "rest = c @ q # CHR '')'' # post"
    and dots: "\<forall>x \<in> set c. is_dot x" by blast
  with d have "drop 11 s = q # c @ q # CHR '')'' # post" by simp
  with p have "s = [] @ ''sc_require('' @ q # c @ q # CHR '')'' # post"
    using append_take_drop_id [of 11 s] by simp
  with q dots show ?thesis unfolding is_call_def by blast
qed

lemma match_here_complete:
  assumes "q = CHR 0x27 \<or> q = CHR 0x22" "\<forall>x \<in> set c. is_dot x"
  shows "\<exists>c'. match_here (''sc_require('' @ q # c @ q # CHR '')'' # post) = Some c'"
  using capture_complete [OF assms(2), of q post] assms(1)
  by (auto simp: match_here_def)

lemma re_exec_sound: "re_exec s = Some c \<Longrightarrow> is_call s c"
proof (induction s)
  case Nil
  then show ?case by (simp add: match_here_sound)
next
  case (Cons x xs)
  show ?case
  proof (cases "match_here (x # xs)")
    case None
    with Cons.prems have "re_exec xs = Some c" by simp
    from Cons.IH [OF this] obtain pre q post where
      "xs = pre @ ''sc_require('' @ q # c @ q # CHR '')'' # post"
      "q = CHR 0x27 \<or> q = CHR 0x22" "\<forall>x \<in> set c. is_dot x"
      unfolding is_call_def by blast
    then have "x # xs = (x # pre) @ ''sc_require('' @ q # c @ q # CHR '')'' # post \<and>
        (q = CHR 0x27 \<or> q = CHR 0x22) \<and> (\<forall>x \<in> set c. is_dot x)"
      by simp
    then show ?thesis unfolding is_call_def by blast
  next
    case (Some c')
    with Cons.prems have "match_here (x # xs) = Some c" by simp
    then show ?thesis by (rule match_here_sound)
  qed
qed

lemma re_exec_complete_aux:
  assumes "q = CHR 0x27 \<or> q = CHR 0x22" "\<forall>x \<in> set c. is_dot x"
  shows "\<exists>c'. re_exec (pre @ ''sc_require('' @ q # c @ q # CHR '')'' # post) = Some c'"
proof (induction pre)
  case Nil
  from match_here_complete [OF assms, of post] obtain c' where
    m: "match_here (''sc_require('' @ q # c @ q # CHR '')'' # post) = Some c'" by blast
  have "re_exec (''sc_require('' @ q # c @ q # CHR '')'' # post) = Some c'"
    using m by (simp del: match_here_def)
  then show ?case by simp
next
  case (Cons x pre)
  then show ?case
    by (cases "match_here ((x # pre) @ ''sc_require('' @ q # c @ q # CHR '')'' # post)") auto
qed

lemma re_exec_complete: "is_call s c \<Longrightarrow> \<exists>c'. re_exec s = Some c'"
  unfolding is_call_def using re_exec_complete_aux by blast

lemma re_exec_matches: "(re_exec s \<noteq> None) = (\<exists>c. is_call s c)"
  using re_exec_sound re_exec_complete by (metis not_Some_eq option.distinct(1))

lemma split_on_nonempty: "split_on c s \<noteq> []"
  by (induction s) (auto split: list.splits)

lemma split_on_append: "split_on c (a @ c # b) = split_on c a @ split_on c b"
proof (induction a)
  case Nil
  show ?case by simp
next
  case (Cons x xs)
  show ?case
  proof (cases "x = c")
    case True
    with Cons.IH show ?thesis by simp
  next
    case False
    obtain w ws where w: "split_on c xs = w # ws"
      using split_on_nonempty [of c xs] by (cases "split_on c xs") auto
    with False Cons.IH show ?thesis by simp
  qed
qed

lemma join_with_Cons: "ys \<noteq> [] \<Longrightarrow> join_with sep (x # ys) = x @ sep @ join_with sep ys"
  by (cases ys) simp_all

lemma join_split: "join_with [c] (split_on c s) = s"
proof (induction s)
  case Nil
  show ?case by simp
next
  case (Cons x xs)
  show ?case
  proof (cases "x = c")
    case True
    with Cons.IH show ?thesis by (simp add: join_with_Cons split_on_nonempty)
  next
    case False
    obtain w ws where w: "split_on c xs = w # ws"
      using split_on_nonempty [of c xs] by (cases "split_on c xs") auto
    with False Cons.IH show ?thesis by (cases ws) simp_all
  qed
qed

lemma split_on_hd: "s \<noteq> [] \<Longrightarrow> hd s = c \<Longrightarrow> hd (split_on c s) = []"
  by (cases s) auto

lemma split_on_single_empty: "split_on c s = [[]] \<Longrightarrow> s = []"
proof (cases s)
  case Nil
  then show ?thesis by simp
next
  case (Cons x xs)
  assume a: "split_on c s = [[]]"
  obtain w ws where w: "split_on c xs = w # ws"
    using split_on_nonempty [of c xs] by (cases "split_on c xs") auto
  with a Cons show ?thesis by (auto split: if_splits)
qed

lemma split_on_last: "s \<noteq> [] \<Longrightarrow> last s = c \<Longrightarrow> last (split_on c s) = []"
proof (induction s)
  case Nil
  then show ?case by simp
next
  case (Cons x xs)
  show ?case
  proof (cases "xs = []")
    case True
    with Cons.prems show ?thesis by simp
  next
    case False
    with Cons have l: "last (split_on c xs) = []" by simp
    obtain w ws where w: "split_on c xs = w # ws"
      using split_on_nonempty [of c xs] by (cases "split_on c xs") auto
    show ?thesis
    proof (cases ws)
      case Nil
      with w l have "w = []" by simp
      with w Nil have "split_on c xs = [[]]" by simp
      then have "xs = []" by (rule split_on_single_empty)
      with False show ?thesis by simp
    next
      case (Cons a list)
      with w l show ?thesis by (auto simp: split_on_nonempty)
    qed
  qed
qed

lemma plain_path_ends:
  assumes "plain_path p"
  shows "p \<noteq> [] \<and> hd p \<noteq> CHR ''/'' \<and> last p \<noteq> CHR ''/''"
proof -
  have ne: "split_on CHR ''/'' p \<noteq> []" by (rule split_on_nonempty)
  then have h: "hd (split_on CHR ''/'' p) \<noteq> []" and l: "last (split_on CHR ''/'' p) \<noteq> []"
    using assms unfolding plain_path_def by (metis hd_in_set, metis last_in_set)
  have "p \<noteq> []" using h by auto
  moreover have "hd p \<noteq> CHR ''/''" using h split_on_hd [of p] \<open>p \<noteq> []\<close> by blast
  moreover have "last p \<noteq> CHR ''/''" using l split_on_last [of p] \<open>p \<noteq> []\<close> by blast
  ultimately show ?thesis by blast
qed

lemma normalizeArray_plain:
  assumes "\<forall>part \<in> set parts. part \<noteq> ''.'' \<and> part \<noteq> ''..''"
  shows "normalizeArray parts b = parts"
proof -
  have "foldr normalizeArray_step parts ([], 0) = (parts, 0)"
    using assms by (induction parts) (simp_all add: normalizeArray_step_def)
  then show ?thesis by (simp add: normalizeArray_def)
qed

lemma path_normalize_plain:
  assumes "plain_path p"
  shows "path_normalize p = p"
proof -
  let ?parts = "split_on CHR ''/'' p"
  from plain_path_ends [OF assms] have ne: "p \<noteq> []" and h: "hd p \<noteq> CHR ''/''"
    and l: "last p \<noteq> CHR ''/''" by simp_all
  have abs: "take 1 p \<noteq> ''/''" using ne h by (cases p) auto
  have f: "filter (\<lambda>part. part \<noteq> []) ?parts = ?parts"
    using assms by (simp add: plain_path_def)
  have n: "normalizeArray ?parts True = ?parts"
    by (rule normalizeArray_plain) (use assms in \<open>simp add: plain_path_def\<close>)
  have j: "join_with ''/'' ?parts = p" by (rule join_split)
  show ?thesis
    using abs l ne by (simp add: path_normalize_def Let_def f n j)
qed

lemma path_join_plain:
  assumes "plain_path a" "plain_path b"
  shows "path_join a b = a @ ''/'' @ b"
proof -
  have a: "a \<noteq> []" and b: "b \<noteq> []" using assms plain_path_ends by blast+
  have "plain_path (a @ ''/'' @ b)"
    using assms by (auto simp: plain_path_def split_on_append)
  then have "path_normalize (a @ ''/'' @ b) = a @ ''/'' @ b" by (rule path_normalize_plain)
  then show ?thesis using a b by (simp add: path_join_def)
qed

text \<open>
  Claim C8, as amended. For a package file with contents, \<^verbatim>\<open>scRequireDependencies\<close>
  returns, in order of appearance, one identifier for every statement (line, then
  semicolon-separated) in which the pattern \<^verbatim>\<open>sc_require('...')\<close> or
  \<^verbatim>\<open>sc_require("...")\<close> occurs, each joined by \<^verbatim>\<open>path.join\<close> onto the package's path
  relative to its parent source tree; for a plain identifier under a plain package path
  that is the package path, a slash and the identifier. A file without such a statement
  yields the empty list.
\<close>

theorem scRequireDependencies_joined:
  assumes "contents f = Some c"
  shows "scRequireDependencies f = Inr (map (path_join (requirePath f)) (declared_ids c)) \<and>
         (\<forall>s. (re_exec s \<noteq> None) = (\<exists>i. is_call s i)) \<and>
         (\<forall>s i. re_exec s = Some i \<longrightarrow> is_call s i) \<and>
         ((\<forall>s \<in> set (statements c). \<forall>i. \<not> is_call s i) \<longrightarrow> scRequireDependencies f = Inr []) \<and>
         (\<forall>i. plain_path (requirePath f) \<and> plain_path i \<longrightarrow>
              path_join (requirePath f) i = requirePath f @ ''/'' @ i)"
proof -
  have 1: "scRequireDependencies f = Inr (map (path_join (requirePath f)) (declared_ids c))"
    using assms by (rule scRequireDependencies_eq)
  have "declared_ids c = []" if "\<forall>s \<in> set (statements c). \<forall>i. \<not> is_call s i"
  proof -
    from that have "\<forall>s \<in> set (statements c). re_exec s = None"
      using re_exec_matches by blast
    then have "filter (\<lambda>s. re_exec s \<noteq> None) (statements c) = []"
      by (simp add: filter_empty_conv)
    then show ?thesis by (simp add: declared_ids_def List.map_filter_def)
  qed
  with 1 have 4: "(\<forall>s \<in> set (statements c). \<forall>i. \<not> is_call s i) \<longrightarrow> scRequireDependencies f = Inr []"
    by simp
  from 1 4 show ?thesis
    using re_exec_matches re_exec_sound path_join_plain by blast
qed

theorem scRequireDependencies_joined_witness:
  "contents two_requires =
     Some ''sc_require('core'); var x = sc_require(\"views/b\")\<newline>// nothing here; done'' \<and>
   scRequireDependencies two_requires = Inr [''packages/pkg/core'', ''packages/pkg/views/b''] \<and>
   plain_path (requirePath two_requires) \<and> plain_path ''views/b'' \<and>
   path_join (requirePath two_requires) ''views/b'' = requirePath two_requires @ ''/'' @ ''views/b'' \<and>
   contents no_requires = Some ''var c = 1;\<newline>c += 1'' \<and>
   \<not> (\<exists>s \<in> set (statements ''var c = 1;\<newline>c += 1''). \<exists>i. is_call s i) \<and>
   scRequireDependencies no_requires = Inr []"
proof -
  let ?c = "''sc_require('core'); var x = sc_require(\"views/b\")\<newline>// nothing here; done''"
  let ?n = "''var c = 1;\<newline>c += 1''"
  have c: "contents two_requires = Some ?c" by code_simp
  have ids: "map (path_join (requirePath two_requires)) (declared_ids ?c) =
      [''packages/pkg/core'', ''packages/pkg/views/b'']" by code_simp
  have p: "plain_path (requirePath two_requires)" "plain_path ''views/b''" by code_simp+
  have n: "contents no_requires = Some ?n" by code_simp
  have "\<forall>s \<in> set (statements ?n). re_exec s = None" by code_simp
  then have none: "\<forall>s \<in> set (statements ?n). \<forall>i. \<not> is_call s i"
    using re_exec_matches by blast
  note two = scRequireDependencies_joined [OF c]
  note zero = scRequireDependencies_joined [OF n]
  from two have "scRequireDependencies two_requires =
      Inr (map (path_join (requirePath two_requires)) (declared_ids ?c))" by blast
  then have r1: "scRequireDependencies two_requires =
      Inr [''packages/pkg/core'', ''packages/pkg/views/b'']"
    by (simp only: ids)
  from two p have r2: "path_join (requirePath two_requires) ''views/b'' =
      requirePath two_requires @ ''/'' @ ''views/b''" by blast
  from zero none have r3: "scRequireDependencies no_requires = Inr []" by blast
  from c r1 p r2 n none r3 show ?thesis by blast
qed

text \<open>
  Claim C8 as stated fails for an identifier with a \<^verbatim>\<open>..\<close> component: the captured
  \<^verbatim>\<open>../shared/util\<close> in the package \<^verbatim>\<open>packages/pkg\<close> becomes
  \<^verbatim>\<open>packages/shared/util\<close>, which does not start with the package's path.
\<close>

theorem scRequireDependencies_parent_counterexample:
  "File_scRequireDependencies parent_require = Inr [''../shared/util''] \<and>
   requirePath parent_require = ''packages/pkg'' \<and>
   scRequireDependencies parent_require = Inr [''packages/shared/util''] \<and>
   take (length ''packages/pkg'') ''packages/shared/util'' \<noteq> ''packages/pkg''"
  by code_simp

section \<open>Cycles\<close>

lemma registered_add_edges:
  "registered g \<Longrightarrow> registered (foldl (\<lambda>g name. addEdge name dp g) g ds)"
  by (induction ds arbitrary: g) (simp_all add: registered_addEdge)

lemma registered_add_file:
  assumes "add_file cp st f = Inr st'" "registered (fgraph st)"
  shows "registered (fgraph st')"
proof -
  from assms(1) obtain ds where
    "st' = \<lparr>fgraph = addEdge cp (dependencyPath f)
              (foldl (\<lambda>g name. addEdge name (dependencyPath f) g)
                 (addVertex (dependencyPath f) (fgraph st)) ds),
            fmap = fmap st @ [(dependencyPath f, f)]\<rparr>"
    by (auto simp: add_file_def Let_def split: sum.splits if_splits)
  then show ?thesis
    using assms(2) by (simp add: registered_addEdge registered_add_edges registered_addVertex)
qed

lemma registered_add_files:
  "add_files cp st files = Inr st' \<Longrightarrow> registered (fgraph st) \<Longrightarrow> registered (fgraph st')"
proof (induction files arbitrary: st)
  case Nil
  then show ?case by simp
next
  case (Cons f files)
  from Cons.prems(1) obtain st1 where a: "add_file cp st f = Inr st1"
    and b: "add_files cp st1 files = Inr st'"
    by (auto split: sum.splits)
  show ?case
    using Cons.IH [OF b registered_add_file [OF a Cons.prems(2)]] .
qed

lemma registered_files_graph:
  assumes "files_graph p files = Inr g"
  shows "registered g"
proof -
  let ?init = "\<lparr>fgraph = empty_graph, fmap = []\<rparr>"
  from assms obtain st where
    a: "add_files (path_join (requirePath p) ''core'') ?init files = Inr st" and g: "g = fgraph st"
    by (auto simp: files_graph_def split: sum.splits)
  have "registered (fgraph ?init)" by (simp add: registered_empty)
  with a g show ?thesis by (simp add: registered_add_files)
qed

lemma registered_resolveDependency:
  "registered (pgraph s) \<Longrightarrow> registered (pgraph (resolveDependency rs i s d))"
  by (simp add: resolveDependency_def Let_def registered_addEdge split: lookup.splits)

lemma registered_resolvePackage:
  assumes "registered (pgraph s)"
  shows "registered (pgraph (resolvePackage rs s i))"
proof -
  have "registered (pgraph s0) \<Longrightarrow> registered (pgraph (foldl (resolveDependency rs i) s0 ds))"
    for s0 ds
    by (induction ds arbitrary: s0) (simp_all add: registered_resolveDependency)
  then show ?thesis
    using assms by (simp add: resolvePackage_def Let_def registered_addVertex)
qed

lemma registered_resolvePackages: "registered (pgraph (resolvePackages rs ps))"
proof -
  have "registered (pgraph s0) \<Longrightarrow> registered (pgraph (foldl (resolvePackage rs) s0 is))"
    for s0 "is"
    by (induction "is" arbitrary: s0) (simp_all add: registered_resolvePackage)
  then show ?thesis
    by (simp add: resolvePackages_def registered_empty)
qed

lemma two_cycle: "(a, b) \<in> set (edges g) \<Longrightarrow> (b, a) \<in> set (edges g) \<Longrightarrow> has_cycle g"
  unfolding has_cycle_def by (meson trancl.simps)

lemma files_graph_mutual:
  "files_graph pkg_node mutual_files =
     Inr \<lparr>vertices = [''packages/pkg/x'', ''packages/pkg/y'', ''packages/pkg/core''],
          edges = [(''packages/pkg/y'', ''packages/pkg/x''), (''packages/pkg/core'', ''packages/pkg/x''),
                   (''packages/pkg/x'', ''packages/pkg/y''), (''packages/pkg/core'', ''packages/pkg/y'')]\<rparr>"
  by code_simp

text \<open>
  Claim C2. For every graph built through \<^verbatim>\<open>addVertex\<close> and \<^verbatim>\<open>addEdge\<close> that contains a
  cycle, \<^verbatim>\<open>topologicalSort\<close> returns no order at all but fails with the cycle error;
  an order that it does return is never partial or incorrect (every vertex once, the
  source of every edge before its target); and the callers \<^verbatim>\<open>orderFiles\<close> and
  \<^verbatim>\<open>orderedPackages\<close>, which do not catch the error, fail with it when the graph they
  have built contains a cycle. (\<^verbatim>\<open>orderedPackages\<close> comes to the sort unless
  \<^verbatim>\<open>findPackage\<close> has handed its loop a property of the packager that is not a
  package, where the description of the loop ends with \<open>NotAPackage\<close>; with no such
  property, as for a packager that has none, the loop cannot halt.)
\<close>

theorem topologicalSort_rejects_cycles:
  "(has_cycle (graph_of_calls calls) \<longrightarrow>
      topologicalSort (graph_of_calls calls) = Inl CycleDetected) \<and>
   (topologicalSort (graph_of_calls calls) = Inr vs \<longrightarrow>
      distinct vs \<and> set vs = set (vertices (graph_of_calls calls)) \<and>
      (\<forall>e \<in> set (edges (graph_of_calls calls)). before (fst e) (snd e) vs)) \<and>
   (files_graph p files = Inr g \<and> has_cycle g \<longrightarrow> orderFiles p files = Inl CycleDetected) \<and>
   (has_cycle (pgraph (resolvePackages reserved ps)) \<longrightarrow>
      snd (orderedPackages reserved ps) =
        (if halted (resolvePackages reserved ps) then Inl NotAPackage else Inl CycleDetected))"
proof (intro conjI impI)
  have reg: "registered (graph_of_calls calls)"
    unfolding graph_of_calls_def by (rule registered_calls [OF registered_empty])
  {
    assume "has_cycle (graph_of_calls calls)"
    with reg show "topologicalSort (graph_of_calls calls) = Inl CycleDetected"
      by (rule registered_cycle_fails)
  }
  {
    assume "topologicalSort (graph_of_calls calls) = Inr vs"
    from topologicalSort_order [OF reg this]
    show "distinct vs" and "set vs = set (vertices (graph_of_calls calls))"
      and "\<forall>e \<in> set (edges (graph_of_calls calls)). before (fst e) (snd e) vs"
      by simp_all
  }
next
  assume a: "files_graph p files = Inr g \<and> has_cycle g"
  then have "topologicalSort g = Inl CycleDetected"
    using registered_files_graph [of p files g] by (simp add: registered_cycle_fails)
  with a show "orderFiles p files = Inl CycleDetected"
    by (auto simp: orderFiles_def orderFiles_with_def files_graph_def Let_def split: sum.splits)
next
  assume "has_cycle (pgraph (resolvePackages reserved ps))"
  then have "topologicalSort (pgraph (resolvePackages reserved ps)) = Inl CycleDetected"
    using registered_resolvePackages by (rule registered_cycle_fails [rotated])
  then show "snd (orderedPackages reserved ps) =
      (if halted (resolvePackages reserved ps) then Inl NotAPackage else Inl CycleDetected)"
    by (simp add: orderedPackages_def Let_def)
qed

theorem topologicalSort_rejects_cycles_witness:
  "has_cycle (graph_of_calls [AddEdge ''A'' ''B'', AddEdge ''B'' ''A'']) \<and>
   topologicalSort (graph_of_calls [AddEdge ''A'' ''B'', AddEdge ''B'' ''A'']) = Inl CycleDetected \<and>
   topologicalSort (graph_of_calls [AddVertex ''c'', AddEdge ''a'' ''c'', AddEdge ''b'' ''a''])
     = Inr [''b'', ''a'', ''c''] \<and>
   distinct [''b'', ''a'', ''c''] \<and>
   list_all (\<lambda>e. before (fst e) (snd e) [''b'', ''a'', ''c''])
     (edges (graph_of_calls [AddVertex ''c'', AddEdge ''a'' ''c'', AddEdge ''b'' ''a''])) \<and>
   (\<exists>g. files_graph pkg_node mutual_files = Inr g \<and> has_cycle g) \<and>
   orderFiles pkg_node mutual_files = Inl CycleDetected \<and>
   has_cycle (pgraph (resolvePackages packager_properties mutual_packages)) \<and>
   \<not> halted (resolvePackages packager_properties mutual_packages) \<and>
   snd (orderedPackages packager_properties mutual_packages) = Inl CycleDetected"
proof -
  let ?calls = "[AddEdge ''A'' ''B'', AddEdge ''B'' ''A'']"
  let ?dag = "[AddVertex ''c'', AddEdge ''a'' ''c'', AddEdge ''b'' ''a'']"
  have c1: "has_cycle (graph_of_calls ?calls)"
    by (rule two_cycle [of "''A''" "''B''"]) code_simp+
  obtain g where g: "files_graph pkg_node mutual_files = Inr g"
    and ge: "edges g = [(''packages/pkg/y'', ''packages/pkg/x''), (''packages/pkg/core'', ''packages/pkg/x''),
                   (''packages/pkg/x'', ''packages/pkg/y''), (''packages/pkg/core'', ''packages/pkg/y'')]"
    using files_graph_mutual by simp
  have c2: "has_cycle g"
    by (rule two_cycle [of "''packages/pkg/x''" "''packages/pkg/y''"]) (simp_all add: ge)
  have c3: "has_cycle (pgraph (resolvePackages packager_properties mutual_packages))"
    by (rule two_cycle [of "Some ''u1''" "Some ''u2''"]) code_simp+
  have h: "\<not> halted (resolvePackages packager_properties mutual_packages)"
    by code_simp
  have srt: "topologicalSort (graph_of_calls ?dag) = Inr [''b'', ''a'', ''c'']" by code_simp
  note t1 = topologicalSort_rejects_cycles
    [of ?calls _ pkg_node mutual_files g packager_properties mutual_packages]
  note t2 = topologicalSort_rejects_cycles [of ?dag "[''b'', ''a'', ''c'']"]
  from t1 c1 have r1: "topologicalSort (graph_of_calls ?calls) = Inl CycleDetected" by blast
  from t2 srt have r2: "distinct [''b'', ''a'', ''c'']"
    and "\<forall>e \<in> set (edges (graph_of_calls ?dag)). before (fst e) (snd e) [''b'', ''a'', ''c'']"
    by blast+
  then have r3: "list_all (\<lambda>e. before (fst e) (snd e) [''b'', ''a'', ''c''])
      (edges (graph_of_calls ?dag))"
    by (simp only: list_all_iff)
  from t1 g c2 have r4: "orderFiles pkg_node mutual_files = Inl CycleDetected" by blast
  from t1 c3 h have r5: "snd (orderedPackages packager_properties mutual_packages) = Inl CycleDetected"
    by simp
  from c1 r1 srt r2 r3 g c2 r4 c3 h r5 show ?thesis by blast
qed

section \<open>Promotion of package dependencies\<close>

lemma same_shape_refl: "same_shape ps ps"
  by (simp add: same_shape_def)

lemma same_shape_trans: "same_shape ps qs \<Longrightarrow> same_shape qs rs \<Longrightarrow> same_shape ps rs"
  by (simp add: same_shape_def)

lemma index_where_Some: "index_where P xs = Some i \<Longrightarrow> i < length xs \<and> P (xs ! i)"
  by (induction xs arbitrary: i) (auto split: if_splits)

lemma index_where_cong:
  "length ys = length xs \<Longrightarrow> (\<forall>k < length xs. P (xs ! k) = Q (ys ! k)) \<Longrightarrow>
   index_where Q ys = index_where P xs"
proof (induction xs arbitrary: ys)
  case Nil
  then show ?case by simp
next
  case (Cons x xs)
  then obtain y ys' where ys: "ys = y # ys'" by (cases ys) auto
  from Cons.prems ys have hd: "P x = Q y" by auto
  from Cons.prems ys have "\<forall>k < length xs. P (xs ! k) = Q (ys' ! k)" by auto
  with Cons.IH [of ys'] Cons.prems ys have "index_where Q ys' = index_where P xs" by simp
  with hd ys show ?case by simp
qed

lemma findPackage_same_shape:
  "same_shape ps qs \<Longrightarrow> findPackage rs qs key = findPackage rs ps key"
proof -
  assume a: "same_shape ps qs"
  have u: "index_where (\<lambda>p. uuid p = key) qs = index_where (\<lambda>p. uuid p = key) ps"
    by (rule index_where_cong) (use a in \<open>auto simp: same_shape_def\<close>)
  have b: "index_where (\<lambda>p. basename p = key) qs = index_where (\<lambda>p. basename p = key) ps"
    by (rule index_where_cong) (use a in \<open>auto simp: same_shape_def\<close>)
  show ?thesis unfolding findPackage_def u b ..
qed

lemma findPackage_bound: "findPackage rs ps key = Package j \<Longrightarrow> j < length ps"
  by (auto simp: findPackage_def split: option.splits if_splits dest: index_where_Some)

lemma resolveDependency_shape: "same_shape (pkgs s) (pkgs (resolveDependency rs i s d))"
  by (auto simp: resolveDependency_def Let_def same_shape_def nth_list_update
      split: lookup.splits dest: findPackage_bound)

text \<open>Once the loop has met a property that is not a package, it stays where it is.\<close>

lemma halted_resolveDependency: "halted s \<Longrightarrow> resolveDependency rs i s d = s"
  by (simp add: resolveDependency_def)

lemma halted_foldl_resolveDependency: "halted s \<Longrightarrow> foldl (resolveDependency rs i) s ds = s"
  by (induction ds) (simp_all add: halted_resolveDependency)

lemma halted_resolvePackage: "halted s \<Longrightarrow> resolvePackage rs s i = s"
  by (simp add: resolvePackage_def)

lemma halted_foldl_resolvePackage: "halted s \<Longrightarrow> foldl (resolvePackage rs) s is = s"
  by (induction "is") (simp_all add: halted_resolvePackage)

lemma resolveDependency_promotes:
  assumes "\<not> halted s" "ptype (pkgs s ! i) = ''core''" "findPackage rs (pkgs s) d = Package j"
  shows "ptype (pkgs (resolveDependency rs i s d) ! j) = ''core''"
  using assms findPackage_bound [OF assms(3)]
  by (auto simp: resolveDependency_def Let_def)

lemma foldl_resolveDependency_shape:
  "same_shape (pkgs s) (pkgs (foldl (resolveDependency rs i) s ds))"
proof (induction ds arbitrary: s)
  case Nil
  show ?case by (simp add: same_shape_refl)
next
  case (Cons d ds)
  show ?case
    using same_shape_trans [OF resolveDependency_shape Cons.IH] by simp
qed

lemma foldl_resolveDependency_promotes:
  assumes "i < length (pkgs s)" "ptype (pkgs s ! i) = ''core''" "d \<in> set ds"
    "findPackage rs (pkgs s) d = Package j"
    "\<not> halted (foldl (resolveDependency rs i) s ds)"
  shows "ptype (pkgs (foldl (resolveDependency rs i) s ds) ! j) = ''core''"
  using assms
proof (induction ds arbitrary: s)
  case Nil
  then show ?case by simp
next
  case (Cons e ds)
  let ?s = "resolveDependency rs i s e"
  have sh: "same_shape (pkgs s) (pkgs ?s)" by (rule resolveDependency_shape)
  have jb: "j < length (pkgs s)" using Cons.prems(4) by (rule findPackage_bound)
  have nh: "\<not> halted s"
    using Cons.prems(5) halted_foldl_resolveDependency [of s rs i "e # ds"] by auto
  have nh': "\<not> halted (foldl (resolveDependency rs i) ?s ds)"
    using Cons.prems(5) by simp
  show ?case
  proof (cases "d = e")
    case True
    have "ptype (pkgs ?s ! j) = ''core''"
      using resolveDependency_promotes [OF nh Cons.prems(2)] Cons.prems(4) True by simp
    moreover have "same_shape (pkgs ?s) (pkgs (foldl (resolveDependency rs i) ?s ds))"
      by (rule foldl_resolveDependency_shape)
    ultimately show ?thesis using jb sh by (simp add: same_shape_def)
  next
    case False
    with Cons.prems have "d \<in> set ds" by simp
    moreover have "i < length (pkgs ?s)" using sh Cons.prems(1) by (simp add: same_shape_def)
    moreover have "ptype (pkgs ?s ! i) = ''core''"
      using sh Cons.prems(1,2) by (simp add: same_shape_def)
    moreover have "findPackage rs (pkgs ?s) d = Package j"
      using findPackage_same_shape [OF sh] Cons.prems(4) by simp
    ultimately show ?thesis using Cons.IH [of ?s] nh' by simp
  qed
qed

lemma resolvePackage_shape: "same_shape (pkgs s) (pkgs (resolvePackage rs s i))"
  using foldl_resolveDependency_shape
    [of "s\<lparr>pgraph := addVertex (Some (uuid (pkgs s ! i))) (pgraph s)\<rparr>" rs i]
  by (simp add: resolvePackage_def Let_def same_shape_refl)

lemma resolved_upto_Suc:
  "resolved_upto rs ps (Suc n) = resolvePackage rs (resolved_upto rs ps n) n"
  by (simp add: resolved_upto_def)

lemma resolved_upto_shape: "same_shape ps (pkgs (resolved_upto rs ps n))"
proof (induction n)
  case 0
  show ?case by (simp add: resolved_upto_def same_shape_refl)
next
  case (Suc n)
  show ?case
    using same_shape_trans [OF Suc resolvePackage_shape] by (simp add: resolved_upto_Suc)
qed

lemma resolved_upto_mono:
  "n \<le> m \<Longrightarrow> same_shape (pkgs (resolved_upto rs ps n)) (pkgs (resolved_upto rs ps m))"
proof (induction m)
  case 0
  then show ?case by (simp add: same_shape_refl)
next
  case (Suc m)
  show ?case
  proof (cases "n = Suc m")
    case True
    then show ?thesis by (simp add: same_shape_refl)
  next
    case False
    with Suc.prems have "n \<le> m" by simp
    from same_shape_trans [OF Suc.IH [OF this] resolvePackage_shape]
    show ?thesis by (simp add: resolved_upto_Suc)
  qed
qed

lemma resolvePackage_promotes:
  assumes "i < length ps" "ptype (pkgs (resolved_upto rs ps i) ! i) = ''core''"
    "depends_on rs ps i j" "\<not> halted (resolved_upto rs ps (Suc i))"
  shows "ptype (pkgs (resolved_upto rs ps (Suc i)) ! j) = ''core''"
proof -
  let ?s = "resolved_upto rs ps i"
  let ?s1 = "?s\<lparr>pgraph := addVertex (Some (uuid (pkgs ?s ! i))) (pgraph ?s)\<rparr>"
  let ?ds = "case dependencies (ps ! i) of None \<Rightarrow> [] | Some ds \<Rightarrow> ds"
  have sh: "same_shape ps (pkgs ?s)" by (rule resolved_upto_shape)
  from assms(3) obtain d where d: "d \<in> set ?ds" and f: "findPackage rs ps d = Package j"
    by (auto simp: depends_on_def)
  have deps: "dependencies (pkgs ?s ! i) = dependencies (ps ! i)"
    using sh assms(1) by (simp add: same_shape_def)
  have nh: "\<not> halted ?s"
    using assms(4) halted_resolvePackage [of ?s rs i] by (auto simp: resolved_upto_Suc)
  then have step: "resolved_upto rs ps (Suc i) = foldl (resolveDependency rs i) ?s1 ?ds"
    by (simp add: resolved_upto_Suc resolvePackage_def Let_def deps)
  have "ptype (pkgs (foldl (resolveDependency rs i) ?s1 ?ds) ! j) = ''core''"
  proof (rule foldl_resolveDependency_promotes [OF _ _ d])
    show "i < length (pkgs ?s1)" using sh assms(1) by (simp add: same_shape_def)
    show "ptype (pkgs ?s1 ! i) = ''core''" using assms(2) by simp
    show "findPackage rs (pkgs ?s1) d = Package j" using findPackage_same_shape [OF sh] f by simp
    show "\<not> halted (foldl (resolveDependency rs i) ?s1 ?ds)" using assms(4) step by simp
  qed
  then show ?thesis by (simp add: step)
qed

lemma resolvePackages_upto: "resolvePackages rs ps = resolved_upto rs ps (length ps)"
  by (simp add: resolvePackages_def resolved_upto_def)

lemma core_stays:
  assumes "n \<le> m" "j < length ps" "ptype (pkgs (resolved_upto rs ps n) ! j) = ''core''"
  shows "ptype (pkgs (resolved_upto rs ps m) ! j) = ''core''"
proof -
  have "length (pkgs (resolved_upto rs ps n)) = length ps"
    using resolved_upto_shape [of ps rs n] by (simp add: same_shape_def)
  then show ?thesis
    using resolved_upto_mono [OF assms(1), of rs ps] assms(2,3) by (simp add: same_shape_def)
qed

lemma depends_on_bound: "depends_on rs ps i j \<Longrightarrow> i < length ps \<and> j < length ps"
  by (auto simp: depends_on_def dest: findPackage_bound)

text \<open>
  Where \<^verbatim>\<open>findPackage\<close> resolves a name to a package, the loop does promote: a package
  \<open>p\<close> (position \<open>j\<close>) to which \<^verbatim>\<open>findPackage\<close> resolves a name declared by a core
  package \<open>q\<close> (position \<open>i\<close>) has type \<^verbatim>\<open>'core'\<close> once the loop has iterated \<open>q\<close>
  without meeting a property of the packager that is not a package, whatever type \<open>p\<close>
  declared, and keeps it whether or not the sort that follows succeeds.
\<close>

lemma orderedPackages_promotes_resolved_dependency:
  assumes "i < length ps" "ptype (ps ! i) = ''core''" "depends_on rs ps i j"
    and "\<not> halted (resolved_upto rs ps (Suc i))"
  shows "ptype (pkgs (fst (orderedPackages rs ps)) ! j) = ''core''"
proof -
  have jb: "j < length ps" using assms(3) by (simp add: depends_on_bound)
  have "resolved_upto rs ps 0 = \<lparr>pkgs = ps, pgraph = empty_graph, plog = [], halted = False\<rparr>"
    by (simp add: resolved_upto_def)
  then have "ptype (pkgs (resolved_upto rs ps i) ! i) = ''core''"
    using core_stays [of 0 i i ps rs] assms(1,2) by simp
  then have "ptype (pkgs (resolved_upto rs ps (Suc i)) ! j) = ''core''"
    using resolvePackage_promotes [OF assms(1) _ assms(3,4)] by simp
  then have "ptype (pkgs (resolved_upto rs ps (length ps)) ! j) = ''core''"
    using core_stays [of "Suc i" "length ps" j ps rs] assms(1) jb by simp
  then show ?thesis by (simp add: orderedPackages_def Let_def resolvePackages_upto)
qed

text \<open>
  Claim C5 at the packager \<open>name_clash\<close>: the core package \<open>q\<close> declares the dependency
  \<^verbatim>\<open>packages\<close>, the basename of a lazy package of the same packager.
  \<^verbatim>\<open>findPackage('packages')\<close> returns the property \<^verbatim>\<open>packages\<close> of the packager, the
  array of its packages, and not the package. The loop goes on with that array, which is
  where its description ends; the package named \<^verbatim>\<open>packages\<close> has not been promoted,
  and no other dependency names it.
\<close>

theorem orderedPackages_name_clash_not_promoted:
  "ptype (name_clash ! 0) = ''core'' \<and>
   dependencies (name_clash ! 0) = Some [''packages''] \<and>
   basename (name_clash ! 1) = ''packages'' \<and>
   ptype (name_clash ! 1) = ''lazy'' \<and>
   findPackage packager_properties name_clash ''packages'' = OtherProperty \<and>
   snd (orderedPackages packager_properties name_clash) = Inl NotAPackage \<and>
   map ptype (pkgs (fst (orderedPackages packager_properties name_clash))) = [''core'', ''lazy'']"
  by code_simp

text \<open>
  Claim C4 at the packager \<open>late_chain\<close>: the core package \<open>q\<close> requires \<open>p\<close>, which
  requires \<open>r\<close>, and the packages are iterated in the order \<open>p\<close>, \<open>q\<close>, \<open>r\<close>. The one
  pass of the loop iterates \<open>p\<close> while it is still lazy, so \<open>r\<close> is never promoted and
  stays lazy, although it is a transitive dependency of the core package \<open>q\<close>. The same
  three packages iterated in the order \<open>q\<close>, \<open>p\<close>, \<open>r\<close> are all promoted.
\<close>

theorem orderedPackages_late_chain_not_promoted:
  "map ptype late_chain = [''lazy'', ''core'', ''lazy''] \<and>
   findPackage packager_properties late_chain ''p'' = Package 0 \<and>
   dependencies (late_chain ! 1) = Some [''p''] \<and>
   findPackage packager_properties late_chain ''r'' = Package 2 \<and>
   dependencies (late_chain ! 0) = Some [''r''] \<and>
   \<not> halted (fst (orderedPackages packager_properties late_chain)) \<and>
   map ptype (pkgs (fst (orderedPackages packager_properties late_chain))) =
     [''core'', ''core'', ''lazy''] \<and>
   map basename late_chain = [''p'', ''q'', ''r''] \<and>
   map basename early_chain = [''q'', ''p'', ''r''] \<and>
   map ptype (pkgs (fst (orderedPackages packager_properties early_chain))) =
     [''core'', ''core'', ''core'']"
  by code_simp

section \<open>Two runs over the same packages\<close>








































section \<open>Properties of the framework ordering\<close>

text \<open>A search that starts below a node only finds strictly smaller trees.\<close>

lemma find_weight:
  "find_visit k str name n = Some f \<Longrightarrow> weight f \<le> weight n"
  "find_traverse k str cs = Some f \<Longrightarrow> weight f \<le> weights cs"
proof (induction k str name n and k str cs rule: find_visit_find_traverse.induct)
  case (1 k str name k' fs cs)
  then show ?case by (auto split: if_splits)
next
  case (2 k str)
  then show ?case by simp
next
  case (3 k str key c cs)
  then show ?case by (auto split: option.splits)
qed

lemma findFramework_smaller:
  assumes "findFramework project str parent = Some f"
  shows "weight f < weight (search_root project parent)"
proof -
  obtain k fs cs where r: "search_root project parent = Node k fs cs"
    by (cases "search_root project parent")
  with assms have "find_traverse KFramework str cs = Some f"
    by (simp add: findFramework_def search_root_def)
  then have "weight f \<le> weights cs" by (rule find_weight(2))
  with r show ?thesis by simp
qed

lemma process_expand:
  "weight (search_root project parent) < n \<Longrightarrow>
     processFramework n project ary name parent = Some (ary @ expand project parent name)"
  "weight (search_root project parent) < n \<Longrightarrow>
     processEach n project ary names parent =
       Some (ary @ concat (map (expand project parent) names))"
proof (induction n project ary name parent and n project ary names parent
    rule: processFramework_processEach.induct)
  case (1 project ary name parent)
  then show ?case by simp
next
  case (2 n project ary name parent)
  show ?case
  proof (cases "findFramework project name parent")
    case None
    then show ?thesis by (simp add: expand.simps [of project parent name])
  next
    case (Some f)
    from findFramework_smaller [OF Some] "2.prems"
    have "weight (search_root project (Some f)) < n" by (simp add: search_root_def)
    from "2.IH" [OF Some this] Some show ?thesis
      by (simp add: expand.simps [of project parent name])
  qed
next
  case (3 n project ary parent)
  show ?case by simp
next
  case (4 n project ary dep deps parent)
  from "4.IH"(1) [OF "4.prems"]
  have a: "processFramework n project ary dep parent = Some (ary @ expand project parent dep)" .
  from "4.IH"(2) [OF a "4.prems"] a show ?case by simp
qed

text \<open>
  Claim C7. For a target with an owning project, \<^verbatim>\<open>orderedFrameworks\<close> returns what the
  declared names contribute in order, where a name that \<^verbatim>\<open>findFramework\<close> resolves
  contributes first, depth first, the contributions of the names declared by the resolved
  framework and then that framework, and a name that is not resolved contributes nothing.
  The code has no statement that writes a diagnostic.
\<close>

theorem orderedFrameworks_depth_first:
  assumes "weight project < n"
  shows "orderedFrameworks n (Some project) fws = Some (concat (map (expand project None) fws)) \<and>
         (\<forall>parent name. findFramework project name parent = None \<longrightarrow>
            expand project parent name = []) \<and>
         (\<forall>parent name f. findFramework project name parent = Some f \<longrightarrow>
            expand project parent name =
              concat (map (expand project (Some f)) (frameworks f)) @ [f])"
proof -
  have "orderedFrameworks n (Some project) fws = Some (concat (map (expand project None) fws))"
    using process_expand(2) [of project None n "[]" fws] assms
    by (simp add: orderedFrameworks_def search_root_def)
  moreover have "expand project parent name = []"
    if "findFramework project name parent = None" for parent name
    using that by (simp add: expand.simps [of project parent name])
  moreover have "expand project parent name =
      concat (map (expand project (Some f)) (frameworks f)) @ [f]"
    if "findFramework project name parent = Some f" for parent name f
    using that by (simp add: expand.simps [of project parent name])
  ultimately show ?thesis by blast
qed

theorem orderedFrameworks_depth_first_witness:
  "weight nested_project < 10 \<and>
   orderedFrameworks 10 (Some nested_project) [''ui'', ''missing'', ''data''] =
     Some [inner_base, widgets, Node KFramework [] [], ui, Node KFramework [] []] \<and>
   findFramework nested_project ''missing'' None = None \<and>
   expand nested_project None ''missing'' = [] \<and>
   findFramework nested_project ''widgets'' (Some ui) = Some widgets \<and>
   expand nested_project (Some ui) ''widgets'' =
     concat (map (expand nested_project (Some widgets)) (frameworks widgets)) @ [widgets]"
proof -
  have w: "weight nested_project < 10" by code_simp
  have r: "orderedFrameworks 10 (Some nested_project) [''ui'', ''missing'', ''data''] =
     Some [inner_base, widgets, Node KFramework [] [], ui, Node KFramework [] []]"
    by code_simp
  have m: "findFramework nested_project ''missing'' None = None" by code_simp
  have f: "findFramework nested_project ''widgets'' (Some ui) = Some widgets" by code_simp
  note t = orderedFrameworks_depth_first [OF w, of "[''ui'', ''missing'', ''data'']"]
  from t m have e1: "expand nested_project None ''missing'' = []" by blast
  from t f have e2: "expand nested_project (Some ui) ''widgets'' =
      concat (map (expand nested_project (Some widgets)) (frameworks widgets)) @ [widgets]"
    by blast
  from w r m e1 f e2 show ?thesis by blast
qed

text \<open>
  Claim C10, as amended. For every project whose nodes form a finite tree and every list
  of declared frameworks, \<^verbatim>\<open>orderedFrameworks\<close> returns, whatever the frameworks declare:
  \<^verbatim>\<open>processFramework\<close> has no visited set, but it searches for a dependency only below
  the framework that declares it, so every recursive call works on a strictly smaller
  tree. Some bound on the depth of the recursion is therefore never reached.
\<close>

theorem orderedFrameworks_terminates: "\<exists>n r. orderedFrameworks n project fws = Some r"
proof (cases project)
  case None
  then show ?thesis by (simp add: orderedFrameworks_def)
next
  case (Some p)
  have "processEach (Suc (weight p)) p [] fws None =
      Some ([] @ concat (map (expand p None) fws))"
    by (rule process_expand(2)) (simp add: search_root_def)
  with Some show ?thesis by (auto simp: orderedFrameworks_def)
qed

text \<open>
  Claim C10 as stated fails: in \<open>mutual_project\<close> the frameworks \<^verbatim>\<open>a\<close> and \<^verbatim>\<open>b\<close>
  declare each other, and \<^verbatim>\<open>orderedFrameworks\<close> of the app that declares \<^verbatim>\<open>a\<close> returns
  after two levels of recursion: \<^verbatim>\<open>b\<close> is looked up below \<^verbatim>\<open>a\<close>, where it is not found.
\<close>

theorem orderedFrameworks_mutual_counterexample:
  "findFramework mutual_project ''a'' None = Some framework_a \<and>
   frameworks framework_a = [''b''] \<and>
   findFramework mutual_project ''b'' None = Some framework_b \<and>
   frameworks framework_b = [''a''] \<and>
   findFramework mutual_project ''b'' (Some framework_a) = None \<and>
   orderedFrameworks 2 (Some mutual_project) [''a''] = Some [framework_a]"
  by code_simp

section \<open>The build after a failed output directory\<close>

text \<open>
  Claim C9. In \<open>two_apps\<close> the directory for the first app cannot be created. The failure
  is logged with its cause and with \<^verbatim>\<open>'aborting build'\<close>, but the \<^verbatim>\<open>return\<close> only leaves
  \<^verbatim>\<open>buildApp\<close>: the visitor of \<^verbatim>\<open>build\<close> goes on to the second app, whose output is
  written, and \<^verbatim>\<open>build\<close> then writes the project's \<^verbatim>\<open>index.html\<close> and logs
  \<^verbatim>\<open>'Done.'\<close>.
\<close>

theorem build_continues_after_failed_app_directory:
  "console (build app_html app_sources ''<html>index</html>'' ''/tool/build'' ''/proj''
              two_apps no_room_for_one) =
     [''one ...'', ''failed to create app directory at /tool/build/one'',
      ''Error: EACCES, permission denied'', ''aborting build'',
      ''two ...'', ''Building apps in  /proj/build'', ''Writing index.html ...'', ''Done.''] \<and>
   fileData (fsys (build app_html app_sources ''<html>index</html>'' ''/tool/build'' ''/proj''
                     two_apps no_room_for_one)) =
     [(''/proj/two/main.js'', ''two()''),
      (''/tool/build/two/index.html'', ''<html></html>''),
      (''/tool/build/two/application.js'', ''two()''),
      (''/proj/build/index.html'', ''<html>index</html>'')]"
  by code_simp

end
